theory Spec2Isabelle
  imports Complex_Main "HOL-Library.Log_Nat"
begin

section \<open>Strings\<close>

text \<open>
  A Python \<open>str\<close> is modelled as a \<open>string\<close>: a list of characters, each a code point
  below 256. The string methods the script calls are written out for that range.
\<close>

definition code :: "char \<Rightarrow> nat" where
  "code c = of_char c"

text \<open>\<open>str.lower()\<close>: the upper-case letters below 256 are A..Z and the Latin-1 capitals
  192..222 (215, the multiplication sign, apart); each has its lower-case letter 32 above.\<close>

definition is_upper :: "char \<Rightarrow> bool" where
  "is_upper c = ((65 \<le> code c \<and> code c \<le> 90) \<or> (192 \<le> code c \<and> code c \<le> 222 \<and> code c \<noteq> 215))"

definition lower_char :: "char \<Rightarrow> char" where
  "lower_char c = (if is_upper c then char_of (code c + 32) else c)"

definition lower :: "string \<Rightarrow> string" where
  "lower s = map lower_char s"

text \<open>Equality of two strings up to the case of their letters, character by character:
  the comparison the policy table of the plan builder asks for.\<close>

definition same_letter :: "char \<Rightarrow> char \<Rightarrow> bool" where
  "same_letter x y =
     (x = y \<or> (is_upper x \<and> code y = code x + 32) \<or> (is_upper y \<and> code x = code y + 32))"

definition eq_ignore_case :: "string \<Rightarrow> string \<Rightarrow> bool" where
  "eq_ignore_case a b = list_all2 same_letter a b"

text \<open>\<open>str.strip()\<close> removes from both ends the characters for which \<open>str.isspace()\<close>
  holds; below 256 these are 9..13, 28..32, 133 and 160.\<close>

definition is_space :: "char \<Rightarrow> bool" where
  "is_space c = ((9 \<le> code c \<and> code c \<le> 13) \<or> (28 \<le> code c \<and> code c \<le> 32)
                 \<or> code c = 133 \<or> code c = 160)"

definition strip :: "string \<Rightarrow> string" where
  "strip s = rev (dropWhile is_space (rev (dropWhile is_space s)))"

text \<open>The decimal digits (what \<open>\d\<close> matches and \<open>int\<close> and \<open>float\<close> read) below 256
  are 0..9.\<close>

definition is_digit :: "char \<Rightarrow> bool" where
  "is_digit c = (48 \<le> code c \<and> code c \<le> 57)"

definition digit_val :: "char \<Rightarrow> nat" where
  "digit_val c = code c - 48"

text \<open>The value of a string of decimal digits.\<close>

definition int_of_digits :: "string \<Rightarrow> nat" where
  "int_of_digits s = foldl (\<lambda>a c. 10 * a + digit_val c) 0 s"

text \<open>\<open>s.split(sep)\<close> with a one-character separator.\<close>

fun split_on :: "char \<Rightarrow> string \<Rightarrow> string list" where
  "split_on sep [] = [[]]"
| "split_on sep (c # cs) =
     (if c = sep then [] # split_on sep cs
      else (case split_on sep cs of [] \<Rightarrow> [[c]] | p # ps \<Rightarrow> (c # p) # ps))"

text \<open>\<open>s.rfind(c)\<close>: the last index of \<open>c\<close>, or -1.\<close>

fun rfind :: "char \<Rightarrow> string \<Rightarrow> int" where
  "rfind c [] = - 1"
| "rfind c (x # xs) =
     (let r = rfind c xs in if 0 \<le> r then r + 1 else if x = c then 0 else - 1)"

text \<open>\<open>os.path.splitext(p)[0]\<close> of \<open>posixpath\<close>: the path up to its last dot, when
  that dot comes after the last slash and after a character of the file name that is
  not a dot; the whole path otherwise.\<close>

definition splitext_root :: "string \<Rightarrow> string" where
  "splitext_root p =
     (let sepIndex = rfind (CHR ''/'') p; dotIndex = rfind (CHR ''.'') p in
      if sepIndex < dotIndex \<and>
         list_ex (\<lambda>c. c \<noteq> CHR ''.'')
           (take (nat (dotIndex - (sepIndex + 1))) (drop (nat (sepIndex + 1)) p))
      then take (nat dotIndex) p else p)"

section \<open>The ffmpeg command\<close>

text \<open>\<open>build_ffmpeg_cmd\<close>, lines 104 to 136. \<open>audio_args\<close> and \<open>tag_args\<close> are its two
  local variables, as functions of the codec name they are computed from.\<close>

definition audio_args :: "string \<Rightarrow> string list" where
  "audio_args acodec = (if lower acodec = ''dts'' then [''-c:a'', ''alac''] else [''-c:a'', ''copy''])"

definition tag_args :: "string \<Rightarrow> string list" where
  "tag_args vcodec =
     (if lower vcodec = ''hevc'' \<or> lower vcodec = ''h265'' then [''-tag:v'', ''hvc1''] else [])"

definition build_ffmpeg_cmd :: "string \<Rightarrow> string \<Rightarrow> string \<Rightarrow> string \<Rightarrow> string list" where
  "build_ffmpeg_cmd src dst acodec vcodec =
     [''ffmpeg'', ''-y'', ''-i'', src, ''-c:v'', ''copy'']
     @ audio_args acodec
     @ [''-movflags'', ''+faststart'']
     @ tag_args vcodec
     @ [''-progress'', ''pipe:1'', ''-nostats'', dst]"

section \<open>Errors and floating-point values\<close>

text \<open>The exceptions that can leave the script: \<open>ValueError\<close> (from \<open>float\<close>, from
  unpacking, from \<open>int\<close> of a NaN or of too many digits), \<open>ZeroDivisionError\<close>,
  \<open>OverflowError\<close> (\<open>int\<close> of an infinity, a quotient of integers beyond the floats),
  and what \<open>subprocess\<close> raises: \<open>CalledProcessError\<close> when ffprobe exits
  with a non-zero status, \<open>FileNotFoundError\<close> when the program to run does not exist.\<close>

datatype error = ValueError | ZeroDivisionError | OverflowError
  | CalledProcessError | FileNotFoundError

text \<open>
  A Python \<open>float\<close> is a binary64 value: a finite number, an infinity or a NaN. A finite
  value is the real number it stands for, and every operation rounds its exact result
  to the nearest binary64 value, ties to the even significand, as IEEE 754 has it. The
  two signs of zero are one value here: nothing the script computes tells them apart
  but the sign printed in front of a zero percentage.
\<close>

datatype pyfloat = Fin real | PInf | NInf | NaN

text \<open>\<open>ilog2 a\<close> is the exponent \<open>e\<close> with \<open>2\<^sup>e \<le> a < 2\<^sup>e\<^sup>+\<^sup>1\<close>, for positive \<open>a\<close>.\<close>

definition ilog2 :: "real \<Rightarrow> int" where
  "ilog2 a = (if 1 \<le> a then bitlen \<lfloor>a\<rfloor> - 1 else - bitlen (\<lceil>1 / a\<rceil> - 1))"

definition round_half_even :: "real \<Rightarrow> int" where
  "round_half_even x =
     (let f = \<lfloor>x\<rfloor> in
      if x - of_int f < 1 / 2 then f
      else if 1 / 2 < x - of_int f then f + 1
      else if even f then f else f + 1)"

text \<open>The exponent of the binade of a positive number: subnormal numbers share the
  exponent -1022.\<close>

definition binade :: "real \<Rightarrow> int" where
  "binade a = max (ilog2 a) (- 1022)"

text \<open>A positive number rounded to 53 significant bits, the exponent not yet bounded
  from above.\<close>

definition round64_abs :: "real \<Rightarrow> real" where
  "round64_abs a =
     of_int (round_half_even (a / 2 powi (binade a - 52))) * 2 powi (binade a - 52)"

text \<open>A rounded magnitude of \<open>2\<^sup>1\<^sup>0\<^sup>2\<^sup>4\<close> or more is an overflow.\<close>

definition huge :: real where
  "huge = 2 ^ 1024"

definition round64 :: "real \<Rightarrow> pyfloat" where
  "round64 x =
     (if x = 0 then Fin 0
      else if 0 < x then (if huge \<le> round64_abs x then PInf else Fin (round64_abs x))
      else (if huge \<le> round64_abs (- x) then NInf else Fin (- round64_abs (- x))))"

fun fmul :: "pyfloat \<Rightarrow> pyfloat \<Rightarrow> pyfloat" where
  "fmul (Fin x) (Fin y) = round64 (x * y)"
| "fmul NaN _ = NaN"
| "fmul _ NaN = NaN"
| "fmul (Fin x) PInf = (if x = 0 then NaN else if 0 < x then PInf else NInf)"
| "fmul (Fin x) NInf = (if x = 0 then NaN else if 0 < x then NInf else PInf)"
| "fmul PInf (Fin y) = (if y = 0 then NaN else if 0 < y then PInf else NInf)"
| "fmul NInf (Fin y) = (if y = 0 then NaN else if 0 < y then NInf else PInf)"
| "fmul PInf PInf = PInf"
| "fmul PInf NInf = NInf"
| "fmul NInf PInf = NInf"
| "fmul NInf NInf = PInf"

fun fadd :: "pyfloat \<Rightarrow> pyfloat \<Rightarrow> pyfloat" where
  "fadd (Fin x) (Fin y) = round64 (x + y)"
| "fadd NaN _ = NaN"
| "fadd _ NaN = NaN"
| "fadd PInf NInf = NaN"
| "fadd NInf PInf = NaN"
| "fadd PInf _ = PInf"
| "fadd NInf _ = NInf"
| "fadd (Fin x) PInf = PInf"
| "fadd (Fin x) NInf = NInf"

text \<open>\<open>a / b\<close> on floats raises \<open>ZeroDivisionError\<close> whenever \<open>b\<close> is zero; a quotient
  too large for binary64 is an infinity.\<close>

fun fdiv :: "pyfloat \<Rightarrow> pyfloat \<Rightarrow> error + pyfloat" where
  "fdiv a (Fin y) =
     (if y = 0 then Inl ZeroDivisionError
      else (case a of
              Fin x \<Rightarrow> Inr (round64 (x / y))
            | PInf \<Rightarrow> Inr (if 0 < y then PInf else NInf)
            | NInf \<Rightarrow> Inr (if 0 < y then NInf else PInf)
            | NaN \<Rightarrow> Inr NaN))"
| "fdiv a NaN = Inr NaN"
| "fdiv (Fin x) PInf = Inr (Fin 0)"
| "fdiv (Fin x) NInf = Inr (Fin 0)"
| "fdiv a PInf = Inr NaN"
| "fdiv a NInf = Inr NaN"

text \<open>\<open>int(s)\<close> for a string of decimal digits: since Python 3.11 a string of more than
  4300 digits is a \<open>ValueError\<close>.\<close>

definition py_int_digits :: "string \<Rightarrow> error + int" where
  "py_int_digits g = (if 4300 < length g then Inl ValueError else Inr (int (int_of_digits g)))"

text \<open>\<open>a / b\<close> on integers: the quotient rounded once, and an \<open>OverflowError\<close> when it
  is too large for a float.\<close>

definition int_truediv :: "int \<Rightarrow> int \<Rightarrow> error + pyfloat" where
  "int_truediv a b =
     (if b = 0 then Inl ZeroDivisionError
      else (case round64 (of_int a / of_int b) of
              PInf \<Rightarrow> Inl OverflowError
            | NInf \<Rightarrow> Inl OverflowError
            | f \<Rightarrow> Inr f))"

text \<open>\<open>a < b\<close>: false as soon as one side is a NaN.\<close>

fun flt :: "pyfloat \<Rightarrow> pyfloat \<Rightarrow> bool" where
  "flt (Fin x) (Fin y) = (x < y)"
| "flt NaN _ = False"
| "flt _ NaN = False"
| "flt NInf NInf = False"
| "flt NInf _ = True"
| "flt _ NInf = False"
| "flt PInf _ = False"
| "flt (Fin x) PInf = True"

text \<open>\<open>a <= b\<close>, likewise.\<close>

fun fle :: "pyfloat \<Rightarrow> pyfloat \<Rightarrow> bool" where
  "fle NaN _ = False"
| "fle _ NaN = False"
| "fle NInf _ = True"
| "fle _ PInf = True"
| "fle (Fin x) (Fin y) = (x \<le> y)"
| "fle PInf _ = False"
| "fle _ NInf = False"

text \<open>\<open>min(a, b)\<close> starts from \<open>a\<close> and takes \<open>b\<close> only if \<open>b < a\<close>.\<close>

definition py_min :: "pyfloat \<Rightarrow> pyfloat \<Rightarrow> pyfloat" where
  "py_min a b = (if flt b a then b else a)"

text \<open>\<open>int(x)\<close> truncates towards zero; it raises on a NaN and on an infinity.\<close>

definition trunc :: "real \<Rightarrow> int" where
  "trunc x = (if 0 \<le> x then \<lfloor>x\<rfloor> else \<lceil>x\<rceil>)"

fun py_int :: "pyfloat \<Rightarrow> error + int" where
  "py_int (Fin x) = Inr (trunc x)"
| "py_int NaN = Inl ValueError"
| "py_int PInf = Inl OverflowError"
| "py_int NInf = Inl OverflowError"

subsection \<open>Reading a float from text\<close>

text \<open>
  \<open>float(text)\<close> for a \<open>str\<close>, as CPython does it. The white space it removes from
  both ends is that of C's \<open>isspace\<close> (9..13 and 32) and, once the text has been
  transliterated to ASCII, 133 and 160. An underscore must stand between two digits;
  the underscores are then deleted. What is left is a sign and \<open>inf\<close>, \<open>infinity\<close> or
  \<open>nan\<close> in any case, or a sign and a decimal number: digits, a point, digits (a digit
  on one side of the point at least) and an exponent; its value is the decimal number
  rounded once. Anything else is a \<open>ValueError\<close>.
\<close>

definition is_float_space :: "char \<Rightarrow> bool" where
  "is_float_space c = ((9 \<le> code c \<and> code c \<le> 13) \<or> code c = 32 \<or> code c = 133 \<or> code c = 160)"

definition float_strip :: "string \<Rightarrow> string" where
  "float_strip s = rev (dropWhile is_float_space (rev (dropWhile is_float_space s)))"

fun underscores_ok :: "char \<Rightarrow> string \<Rightarrow> bool" where
  "underscores_ok prev [] = (prev \<noteq> CHR ''_'')"
| "underscores_ok prev (c # cs) =
     ((if c = CHR ''_'' then is_digit prev
       else if prev = CHR ''_'' then is_digit c else True)
      \<and> underscores_ok c cs)"

definition pow10 :: "int \<Rightarrow> real" where
  "pow10 e = (if 0 \<le> e then 10 ^ nat e else 1 / 10 ^ nat (- e))"

definition exponent :: "string \<Rightarrow> int option" where
  "exponent s =
     (case s of
        [] \<Rightarrow> Some 0
      | c # cs \<Rightarrow>
          if c = CHR ''e'' \<or> c = CHR ''E'' then
            (let neg = (cs \<noteq> [] \<and> hd cs = CHR ''-'');
                 ds = (if cs \<noteq> [] \<and> (hd cs = CHR ''-'' \<or> hd cs = CHR ''+'') then tl cs else cs)
             in if ds \<noteq> [] \<and> list_all is_digit ds
                then Some (if neg then - int (int_of_digits ds) else int (int_of_digits ds))
                else None)
          else None)"

definition decimal :: "string \<Rightarrow> real option" where
  "decimal s =
     (let ip = takeWhile is_digit s;
          r1 = dropWhile is_digit s;
          fp = (if r1 \<noteq> [] \<and> hd r1 = CHR ''.'' then takeWhile is_digit (tl r1) else []);
          r2 = (if r1 \<noteq> [] \<and> hd r1 = CHR ''.'' then dropWhile is_digit (tl r1) else r1)
      in if ip = [] \<and> fp = [] then None
         else (case exponent r2 of
                 None \<Rightarrow> None
               | Some e \<Rightarrow>
                   Some ((real (int_of_digits ip) + real (int_of_digits fp) / 10 ^ length fp)
                         * pow10 e)))"

definition py_float :: "string \<Rightarrow> error + pyfloat" where
  "py_float text =
     (let s = float_strip text in
      if \<not> underscores_ok (CHR 0x00) s then Inl ValueError
      else
        (let t = filter (\<lambda>c. c \<noteq> CHR ''_'') s;
             neg = (t \<noteq> [] \<and> hd t = CHR ''-'');
             u = (if t \<noteq> [] \<and> (hd t = CHR ''-'' \<or> hd t = CHR ''+'') then tl t else t)
         in if lower u = ''inf'' \<or> lower u = ''infinity'' then Inr (if neg then NInf else PInf)
            else if lower u = ''nan'' then Inr NaN
            else (case decimal u of
                    None \<Rightarrow> Inl ValueError
                  | Some x \<Rightarrow> Inr (round64 (if neg then - x else x)))))"

subsection \<open>The texts that float reads, as a grammar\<close>

text \<open>
  What the documentation of \<open>float\<close> lists, said without the parser: around the literal
  there may be white space; in it an underscore stands only between two digits; with
  the underscores taken out it is an optional sign followed by \<open>inf\<close>, \<open>infinity\<close> or
  \<open>nan\<close> in any case of the letters, or by a decimal number: digits, optionally a point
  and digits, with a digit on one side of the point at least, and optionally an exponent
  (\<open>e\<close> or \<open>E\<close>, an optional sign, digits).
\<close>

definition digits :: "string \<Rightarrow> bool" where
  "digits s = list_all is_digit s"

definition underscores_between_digits :: "string \<Rightarrow> bool" where
  "underscores_between_digits s =
     (\<forall>l r. s = l @ CHR ''_'' # r \<longrightarrow> l \<noteq> [] \<and> is_digit (last l) \<and> r \<noteq> [] \<and> is_digit (hd r))"

definition sign_part :: "string \<Rightarrow> bool" where
  "sign_part sg = (sg = [] \<or> sg = ''+'' \<or> sg = ''-'')"

definition exponent_part :: "string \<Rightarrow> bool" where
  "exponent_part ex =
     (ex = [] \<or> (\<exists>c sg ds. ex = c # sg @ ds \<and> (c = CHR ''e'' \<or> c = CHR ''E'')
                    \<and> sign_part sg \<and> ds \<noteq> [] \<and> digits ds))"

definition decimal_literal :: "string \<Rightarrow> bool" where
  "decimal_literal u =
     (\<exists>ip fd ex. (u = ip @ ex \<and> ip \<noteq> [] \<or> u = ip @ CHR ''.'' # fd @ ex \<and> (ip \<noteq> [] \<or> fd \<noteq> []))
                 \<and> digits ip \<and> digits fd \<and> exponent_part ex)"

definition special_literal :: "string \<Rightarrow> bool" where
  "special_literal u = (lower u = ''inf'' \<or> lower u = ''infinity'' \<or> lower u = ''nan'')"

definition float_literal :: "string \<Rightarrow> bool" where
  "float_literal text =
     (\<exists>l s r sg body.
        text = l @ s @ r \<and> list_all is_float_space l \<and> list_all is_float_space r
        \<and> underscores_between_digits s
        \<and> filter (\<lambda>c. c \<noteq> CHR ''_'') s = sg @ body \<and> sign_part sg
        \<and> (special_literal body \<or> decimal_literal body))"

section \<open>Parsing the progress output\<close>

text \<open>
  \<open>re.compile(key + "(" + class + "+)").search(line)\<close> for a literal \<open>key\<close> and a
  character class: the leftmost place of the line where \<open>key\<close> stands followed by a
  character of the class; the group is the longest run of such characters there.
\<close>

fun re_search :: "string \<Rightarrow> (char \<Rightarrow> bool) \<Rightarrow> string \<Rightarrow> string option" where
  "re_search key cls [] = None"
| "re_search key cls (c # cs) =
     (let g = takeWhile cls (drop (length key) (c # cs)) in
      if take (length key) (c # cs) = key \<and> g \<noteq> [] then Some g
      else re_search key cls cs)"

definition hms_char :: "char \<Rightarrow> bool" where
  "hms_char c = (is_digit c \<or> c = CHR '':'' \<or> c = CHR ''.'')"

text \<open>The characters of one field of a time stamp.\<close>

definition plain_char :: "char \<Rightarrow> bool" where
  "plain_char c = (is_digit c \<or> c = CHR ''.'')"

definition re_us :: "string \<Rightarrow> string option" where
  "re_us line = re_search ''out_time_ms='' is_digit line"

definition re_hms :: "string \<Rightarrow> string option" where
  "re_hms line = re_search ''out_time='' hms_char line"

text \<open>Line 176 and 177: \<open>h, m_, s = map(float, group.split(":"))\<close> and the sum. Every
  way this can fail (a field that \<open>float\<close> rejects, fewer or more than three fields) is a
  \<open>ValueError\<close>.\<close>

definition hms_seconds :: "string \<Rightarrow> error + pyfloat" where
  "hms_seconds g =
     (case split_on (CHR '':'') g of
        [h, m, s] \<Rightarrow>
          (case py_float h of
             Inl e \<Rightarrow> Inl e
           | Inr fh \<Rightarrow>
               (case py_float m of
                  Inl e \<Rightarrow> Inl e
                | Inr fm \<Rightarrow>
                    (case py_float s of
                       Inl e \<Rightarrow> Inl e
                     | Inr fs \<Rightarrow>
                         Inr (fadd (fadd (fmul fh (Fin 3600)) (fmul fm (Fin 60))) fs))))
      | _ \<Rightarrow> Inl ValueError)"

text \<open>Lines 173 to 179: the elapsed seconds a line stands for; \<open>Inr None\<close> is the
  \<open>continue\<close> of an unrelated line.\<close>

definition done_seconds :: "string \<Rightarrow> error + pyfloat option" where
  "done_seconds line =
     (case re_us line of
        Some g \<Rightarrow>
          (case py_int_digits g of
             Inl e \<Rightarrow> Inl e
           | Inr n \<Rightarrow>
               (case int_truediv n 1000000 of
                  Inl e \<Rightarrow> Inl e
                | Inr d \<Rightarrow> Inr (Some d)))
      | None \<Rightarrow>
          (case re_hms line of
             Some g \<Rightarrow> (case hms_seconds g of Inl e \<Rightarrow> Inl e | Inr d \<Rightarrow> Inr (Some d))
           | None \<Rightarrow> Inr None))"

text \<open>Line 181: \<open>pct = min(done_seconds / total_duration * 100, 100)\<close>.\<close>

definition percent :: "pyfloat \<Rightarrow> pyfloat \<Rightarrow> error + pyfloat" where
  "percent done_secs total_duration =
     (case fdiv done_secs total_duration of
        Inl e \<Rightarrow> Inl e
      | Inr q \<Rightarrow> Inr (py_min (fmul q (Fin 100)) (Fin 100)))"

text \<open>Lines 173 to 181 together: the percentage a line gives, if it is a progress line.\<close>

definition line_percent :: "pyfloat \<Rightarrow> string \<Rightarrow> error + pyfloat option" where
  "line_percent total_duration line =
     (case done_seconds line of
        Inl e \<Rightarrow> Inl e
      | Inr None \<Rightarrow> Inr None
      | Inr (Some d) \<Rightarrow> (case percent d total_duration of Inl e \<Rightarrow> Inl e | Inr pct \<Rightarrow> Inr (Some pct)))"

section \<open>The supervised run\<close>

text \<open>The state of the loop of lines 171 to 184: \<open>last_pct\<close>, and what has been printed
  so far. Each entry of \<open>updates\<close> is one execution of lines 183 and 184: the
  percentage printed and the integer stored in \<open>last_pct\<close>.\<close>

record progress_state =
  last_pct :: int
  updates :: "(pyfloat \<times> int) list"

definition initial_state :: progress_state where
  "initial_state = \<lparr>last_pct = - 1, updates = []\<rparr>"

definition step :: "pyfloat \<Rightarrow> string \<Rightarrow> progress_state \<Rightarrow> error + progress_state" where
  "step total_duration line st =
     (case line_percent total_duration line of
        Inl e \<Rightarrow> Inl e
      | Inr None \<Rightarrow> Inr st
      | Inr (Some pct) \<Rightarrow>
          (case py_int pct of
             Inl e \<Rightarrow> Inl e
           | Inr k \<Rightarrow>
               if k \<noteq> last_pct st
               then Inr (st\<lparr>updates := updates st @ [(pct, k)], last_pct := k\<rparr>)
               else Inr st))"

text \<open>The loop: an exception leaves it at once, with the state reached so far.\<close>

fun run_lines :: "pyfloat \<Rightarrow> string list \<Rightarrow> progress_state \<Rightarrow> progress_state \<times> error option" where
  "run_lines total_duration [] st = (st, None)"
| "run_lines total_duration (l # ls) st =
     (case step total_duration l st of
        Inl e \<Rightarrow> (st, Some e)
      | Inr st' \<Rightarrow> run_lines total_duration ls st')"

definition emitted :: "progress_state \<Rightarrow> int list" where
  "emitted st = map snd (updates st)"

subsection \<open>The programs outside\<close>

text \<open>
  ffprobe and ffmpeg are the environment. \<open>ffprobe w argv\<close> is what
  \<open>subprocess.check_output(argv, text=True)\<close> gives: the text written by ffprobe, or the
  exception raised. \<open>ffmpeg w argv\<close> is what \<open>subprocess.Popen(argv, ...)\<close> gives: the
  exception raised when the process cannot be started, or the lines read from its
  merged output until the end of the stream, and its return code.
\<close>

record world =
  ffprobe :: "string list \<Rightarrow> error + string"
  ffmpeg :: "string list \<Rightarrow> error + (string list \<times> int)"

definition ffprobe_field :: "world \<Rightarrow> string \<Rightarrow> string \<Rightarrow> string \<Rightarrow> error + string" where
  "ffprobe_field w path sel field =
     (case ffprobe w
             [''ffprobe'', ''-v'', ''error'',
              ''-select_streams'', sel,
              ''-show_entries'', ''stream='' @ field,
              ''-of'', ''default=noprint_wrappers=1:nokey=1'',
              path] of
        Inl e \<Rightarrow> Inl e
      | Inr out \<Rightarrow> Inr (strip out))"

definition get_duration :: "world \<Rightarrow> string \<Rightarrow> error + pyfloat" where
  "get_duration w path =
     (case ffprobe w
             [''ffprobe'', ''-v'', ''error'',
              ''-show_entries'', ''format=duration'',
              ''-of'', ''default=noprint_wrappers=1:nokey=1'',
              path] of
        Inl e \<Rightarrow> Inl e
      | Inr out \<Rightarrow> py_float (strip out))"

definition detect_audio_codec :: "world \<Rightarrow> string \<Rightarrow> error + string" where
  "detect_audio_codec w path = ffprobe_field w path ''a:0'' ''codec_name''"

definition detect_video_codec :: "world \<Rightarrow> string \<Rightarrow> error + string" where
  "detect_video_codec w path = ffprobe_field w path ''v:0'' ''codec_name''"

text \<open>
  What a run of \<open>remux_with_progress\<close> does, in order: \<open>PrintCodecs\<close> is line 152 (with
  \<open>unknown\<close> for an empty name), \<open>BuildCmd\<close> the command of line 154, \<open>Popen\<close> the start
  of ffmpeg at line 155, \<open>PrintProgress\<close> line 183 and \<open>PrintStatus\<close> line 189 (\<open>True\<close>
  for Completed). The run ends with an exception, or with \<open>sys.exit\<close> of line 190.
\<close>

datatype event = PrintCodecs string string | BuildCmd "string list" | Popen "string list"
  | PrintProgress pyfloat | PrintStatus bool string

datatype final = Raised error | SysExit int

definition or_unknown :: "string \<Rightarrow> string" where
  "or_unknown s = (if s = [] then ''unknown'' else s)"

definition remux_with_progress :: "world \<Rightarrow> string \<Rightarrow> event list \<times> final" where
  "remux_with_progress w src =
     (case get_duration w src of
        Inl e \<Rightarrow> ([], Raised e)
      | Inr total_duration \<Rightarrow>
          (let dst = splitext_root src @ ''.mp4'' in
           case detect_audio_codec w src of
             Inl e \<Rightarrow> ([], Raised e)
           | Inr acodec \<Rightarrow>
               (case detect_video_codec w src of
                  Inl e \<Rightarrow> ([], Raised e)
                | Inr vcodec \<Rightarrow>
                    (let cmd = build_ffmpeg_cmd src dst acodec vcodec;
                         before = [PrintCodecs (or_unknown acodec) (or_unknown vcodec),
                                   BuildCmd cmd] in
                     case ffmpeg w cmd of
                       Inl e \<Rightarrow> (before, Raised e)
                     | Inr (lines, returncode) \<Rightarrow>
                         (case run_lines total_duration lines initial_state of
                            (st, Some e) \<Rightarrow>
                              (before @ [Popen cmd]
                                 @ map (\<lambda>u. PrintProgress (fst u)) (updates st),
                               Raised e)
                          | (st, None) \<Rightarrow>
                              (before @ [Popen cmd]
                                 @ map (\<lambda>u. PrintProgress (fst u)) (updates st)
                                 @ [PrintStatus (returncode = 0) dst],
                               SysExit returncode))))))"

text \<open>The clamp of the specification.\<close>

definition clamp :: "real \<Rightarrow> real \<Rightarrow> real \<Rightarrow> real" where
  "clamp x lo hi = max lo (min hi x)"

text \<open>The invariant of the loop behind the throttle: no value is printed twice in a row,
  and \<open>last_pct\<close> is the value printed last.\<close>

definition throttled :: "progress_state \<Rightarrow> bool" where
  "throttled st = (distinct_adj (emitted st) \<and> (updates st = [] \<or> last (emitted st) = last_pct st))"

text \<open>The elapsed seconds the loop computes from the progress lines among \<open>lines\<close>, in
  their order.\<close>

fun elapsed_times :: "string list \<Rightarrow> pyfloat list" where
  "elapsed_times [] = []"
| "elapsed_times (l # ls) =
     (case done_seconds l of
        Inr (Some v) \<Rightarrow> v # elapsed_times ls
      | _ \<Rightarrow> elapsed_times ls)"

text \<open>The integer of line 182 for an elapsed time, where it is defined.\<close>

definition whole_percent :: "pyfloat \<Rightarrow> pyfloat \<Rightarrow> int" where
  "whole_percent total_duration v =
     (case percent v total_duration of
        Inl e \<Rightarrow> 0
      | Inr p \<Rightarrow> (case py_int p of Inl e \<Rightarrow> 0 | Inr k \<Rightarrow> k))"

text \<open>An environment to run the script in: ffprobe answers the three queries with the
  given texts, ffmpeg writes the given lines and ends with the given return code.\<close>

definition sample_world :: "string \<Rightarrow> string \<Rightarrow> string \<Rightarrow> string list \<Rightarrow> int \<Rightarrow> world" where
  "sample_world duration acodec vcodec lines returncode =
     \<lparr>ffprobe = (\<lambda>argv. if ''format=duration'' \<in> set argv then Inr duration
                        else if ''a:0'' \<in> set argv then Inr acodec else Inr vcodec),
      ffmpeg = (\<lambda>argv. Inr (lines, returncode))\<rparr>"

section \<open>Case-insensitive comparison\<close>

lemma code_inj: "(x = y) = (code x = code y)"
  unfolding code_def by simp

lemma code_lower_char: "code (lower_char c) = (if is_upper c then code c + 32 else code c)"
proof (cases "is_upper c")
  case True
  then have "code c + 32 < 256" by (auto simp: is_upper_def)
  then show ?thesis using True by (simp add: lower_char_def code_def)
next
  case False
  then show ?thesis by (simp add: lower_char_def)
qed

lemma lower_char_eq_iff: "(lower_char x = lower_char y) = same_letter x y"
proof -
  have "(lower_char x = lower_char y) = (code (lower_char x) = code (lower_char y))"
    by (rule code_inj)
  also have "\<dots> = same_letter x y"
    unfolding code_lower_char same_letter_def code_inj [of x y]
    by (auto simp: is_upper_def)
  finally show ?thesis .
qed

lemma lower_eq_iff: "(lower a = lower b) = eq_ignore_case a b"
proof -
  have "(lower a = lower b) = list_all2 (=) (map lower_char a) (map lower_char b)"
    by (simp add: lower_def list.rel_eq)
  also have "\<dots> = list_all2 (\<lambda>x y. lower_char x = lower_char y) a b"
    by (simp add: list_all2_map1 list_all2_map2)
  finally show ?thesis by (simp add: eq_ignore_case_def lower_char_eq_iff)
qed

lemmas char_eval = code_def is_upper_def is_digit_def is_space_def is_float_space_def
  lower_def lower_char_def same_letter_def eq_ignore_case_def char_of_eq_iff

lemma lower_dts: "lower ''dts'' = ''dts''"
  by (simp add: char_eval)

lemma lower_hevc: "lower ''hevc'' = ''hevc''"
  by (simp add: char_eval)

lemma lower_h265: "lower ''h265'' = ''h265''"
  by (simp add: char_eval)

lemma audio_args_iff:
  "audio_args acodec =
     (if eq_ignore_case acodec ''dts'' then [''-c:a'', ''alac''] else [''-c:a'', ''copy''])"
  using lower_eq_iff [of acodec "''dts''"] by (simp add: audio_args_def lower_dts)

lemma tag_args_iff:
  "tag_args vcodec =
     (if eq_ignore_case vcodec ''hevc'' \<or> eq_ignore_case vcodec ''h265''
      then [''-tag:v'', ''hvc1''] else [])"
  using lower_eq_iff [of vcodec "''hevc''"] lower_eq_iff [of vcodec "''h265''"]
  by (simp add: tag_args_def lower_hevc lower_h265)

lemma length_audio_args: "length (audio_args a) = 2"
  by (simp add: audio_args_def)

section \<open>Evaluation and errors\<close>

lemmas round_eval = round64_def round64_abs_def binade_def huge_def round_half_even_def
  ilog2_def compute_bitlen

lemmas float_eval = py_float_def float_strip_def decimal_def exponent_def int_of_digits_def
  digit_val_def pow10_def Let_def round_eval

lemmas line_eval = line_percent_def done_seconds_def re_us_def re_hms_def hms_char_def
  hms_seconds_def percent_def py_min_def py_int_digits_def int_truediv_def

lemmas run_eval = step_def initial_state_def emitted_def trunc_def

lemmas prog_eval = remux_with_progress_def sample_world_def get_duration_def
  detect_audio_codec_def detect_video_codec_def ffprobe_field_def strip_def or_unknown_def
  splitext_root_def build_ffmpeg_cmd_def audio_args_def tag_args_def

lemma py_float_error: "py_float s = Inl e \<Longrightarrow> e = ValueError"
  by (auto simp: py_float_def Let_def split: if_splits option.splits)

lemma hms_seconds_error: "hms_seconds g = Inl e \<Longrightarrow> e = ValueError"
  by (auto simp: hms_seconds_def split: list.splits sum.splits dest: py_float_error)

lemma int_truediv_error: "int_truediv n 1000000 = Inl e \<Longrightarrow> e = OverflowError"
  by (auto simp: int_truediv_def split: pyfloat.splits)

lemma done_seconds_error: "done_seconds line = Inl e \<Longrightarrow> e = ValueError \<or> e = OverflowError"
  by (auto simp: done_seconds_def py_int_digits_def
      split: option.splits sum.splits if_splits dest: hms_seconds_error int_truediv_error)

lemma fdiv_error: "(fdiv a t = Inl e) = (t = Fin 0 \<and> e = ZeroDivisionError)"
  by (cases t; cases a) auto

lemma percent_error: "(percent a t = Inl e) = (t = Fin 0 \<and> e = ZeroDivisionError)"
  by (auto simp: percent_def fdiv_error split: sum.splits)

lemma py_int_error: "py_int p = Inl e \<Longrightarrow> e = ValueError \<or> e = OverflowError"
  by (cases p) auto

section \<open>Rounding to binary64\<close>

lemma ilog2_bounds:
  assumes "0 < a"
  shows "2 powi (ilog2 a) \<le> a \<and> a < 2 powi (ilog2 a + 1)"
proof (cases "1 \<le> a")
  case True
  define n where "n = \<lfloor>a\<rfloor>"
  have n: "0 < n" using True by (simp add: n_def)
  have b1: "1 \<le> bitlen n" using n bitlen_eq_zero_iff [of n] bitlen_nonneg [of n] by linarith
  from bitlen_bounds [OF n] have lo: "(2::int) ^ nat (bitlen n - 1) \<le> n" and hi: "n < 2 ^ nat (bitlen n)"
    by simp_all
  have il: "ilog2 a = bitlen n - 1" using True by (simp add: ilog2_def n_def)
  have "2 powi (bitlen n - 1) = (2::real) ^ nat (bitlen n - 1)"
    using b1 by (simp add: power_int_def)
  also have "\<dots> = of_int ((2::int) ^ nat (bitlen n - 1))" by simp
  also have "\<dots> \<le> of_int n" using lo by (simp only: of_int_le_iff)
  also have "\<dots> \<le> a" by (simp add: n_def)
  finally have 1: "2 powi (ilog2 a) \<le> a" by (simp add: il)
  have "a < of_int (n + 1)" by (simp add: n_def)
  also have "\<dots> \<le> of_int ((2::int) ^ nat (bitlen n))"
  proof -
    from hi have "n + 1 \<le> 2 ^ nat (bitlen n)" by simp
    then show ?thesis by (simp only: of_int_le_iff)
  qed
  also have "\<dots> = (2::real) ^ nat (bitlen n)" by simp
  also have "\<dots> = 2 powi (bitlen n)" using b1 by (simp add: power_int_def)
  finally have 2: "a < 2 powi (ilog2 a + 1)" by (simp add: il)
  from 1 2 show ?thesis by simp
next
  case False
  then have a1: "a < 1" by simp
  define c where "c = \<lceil>1 / a\<rceil>"
  define m where "m = c - 1"
  have inv: "1 < 1 / a" using assms a1 by simp
  then have "1 < c" by (simp add: c_def less_ceiling_iff)
  then have m: "0 < m" by (simp add: m_def)
  have b1: "1 \<le> bitlen m" using m bitlen_eq_zero_iff [of m] bitlen_nonneg [of m] by linarith
  from bitlen_bounds [OF m] have lo: "(2::int) ^ nat (bitlen m - 1) \<le> m" and hi: "m < 2 ^ nat (bitlen m)"
    by simp_all
  have il: "ilog2 a = - bitlen m" using False by (simp add: ilog2_def c_def m_def)
  have "1 / a \<le> of_int c" by (simp add: c_def)
  also have "\<dots> = of_int (m + 1)" by (simp add: m_def)
  also have "\<dots> \<le> of_int ((2::int) ^ nat (bitlen m))"
  proof -
    from hi have "m + 1 \<le> 2 ^ nat (bitlen m)" by simp
    then show ?thesis by (simp only: of_int_le_iff)
  qed
  also have "\<dots> = (2::real) ^ nat (bitlen m)" by simp
  finally have "1 / a \<le> 2 ^ nat (bitlen m)" .
  then have "1 / 2 ^ nat (bitlen m) \<le> a"
    using assms by (simp add: field_simps)
  moreover have "2 powi (- bitlen m) = 1 / (2::real) ^ nat (bitlen m)"
    using b1 by (simp add: power_int_def field_simps)
  ultimately have 1: "2 powi (ilog2 a) \<le> a" by (simp add: il)
  have "(2::real) ^ nat (bitlen m - 1) = of_int ((2::int) ^ nat (bitlen m - 1))" by simp
  also have "\<dots> \<le> of_int m" using lo by (simp only: of_int_le_iff)
  also have "\<dots> < 1 / a" unfolding m_def c_def by linarith
  finally have "(2::real) ^ nat (bitlen m - 1) < 1 / a" .
  then have "a < 1 / 2 ^ nat (bitlen m - 1)"
    using assms by (simp add: field_simps)
  moreover have "2 powi (- bitlen m + 1) = 1 / (2::real) ^ nat (bitlen m - 1)"
  proof (cases "bitlen m = 1")
    case True
    then show ?thesis by simp
  next
    case False
    with b1 have "- bitlen m + 1 < 0" by simp
    then show ?thesis
      by (simp add: power_int_def field_simps nat_diff_distrib)
  qed
  ultimately have 2: "a < 2 powi (ilog2 a + 1)" by (simp add: il)
  from 1 2 show ?thesis by simp
qed

lemma ilog2_mono:
  assumes "0 < a" and "a \<le> b"
  shows "ilog2 a \<le> ilog2 b"
proof (rule ccontr)
  assume "\<not> ilog2 a \<le> ilog2 b"
  then have "ilog2 b + 1 \<le> ilog2 a" by simp
  then have "(2::real) powi (ilog2 b + 1) \<le> 2 powi (ilog2 a)"
    by (intro power_int_increasing) simp_all
  also have "\<dots> \<le> a" using ilog2_bounds [OF assms(1)] by simp
  also have "\<dots> \<le> b" by (rule assms(2))
  also have "\<dots> < 2 powi (ilog2 b + 1)" using ilog2_bounds [of b] assms by simp
  finally show False by simp
qed

lemma rhe_lower: "\<lfloor>x\<rfloor> \<le> round_half_even x"
  by (simp add: round_half_even_def Let_def)

lemma rhe_upper: "round_half_even x \<le> \<lfloor>x\<rfloor> + 1"
  by (simp add: round_half_even_def Let_def)

lemma rhe_of_int: "round_half_even (of_int n) = n"
  by (simp add: round_half_even_def Let_def)

lemma rhe_mono:
  assumes "x \<le> y"
  shows "round_half_even x \<le> round_half_even y"
proof (cases "\<lfloor>x\<rfloor> = \<lfloor>y\<rfloor>")
  case True
  with assms show ?thesis
    by (auto simp: round_half_even_def Let_def)
next
  case False
  with assms have "\<lfloor>x\<rfloor> + 1 \<le> \<lfloor>y\<rfloor>"
    using floor_mono [OF assms] by linarith
  with rhe_upper [of x] rhe_lower [of y] show ?thesis by linarith
qed

lemma rhe_nonneg: "0 \<le> x \<Longrightarrow> 0 \<le> round_half_even x"
  using rhe_mono [of 0 x] rhe_of_int [of 0] by simp

lemma round64_abs_binade:
  "round64_abs a = of_int (round_half_even (a / 2 powi (binade a - 52))) * 2 powi (binade a - 52)"
  by (simp add: round64_abs_def)

lemma round64_abs_nonneg: "0 \<le> a \<Longrightarrow> 0 \<le> round64_abs a"
  unfolding round64_abs_binade
  by (intro mult_nonneg_nonneg) (simp_all add: rhe_nonneg)

lemma powi_split: "(2::real) powi e = 2 powi k * 2 powi (e - k)"
  using power_int_add [of "2::real" k "e - k"] by simp

lemma round64_abs_le:
  assumes "0 < a"
  shows "round64_abs a \<le> 2 powi (binade a + 1)"
proof -
  define q :: real where "q = 2 powi (binade a - 52)"
  have q: "0 < q" by (simp add: q_def)
  have "a < 2 powi (ilog2 a + 1)" using ilog2_bounds [OF assms] by simp
  also have "\<dots> \<le> 2 powi (binade a + 1)"
    by (intro power_int_increasing) (simp_all add: binade_def)
  also have "\<dots> = 2 powi 53 * q"
    unfolding q_def using powi_split [of "binade a + 1" 53] by (simp add: algebra_simps)
  finally have "a / q < 2 powi 53" using q by (simp add: field_simps)
  then have "a / q \<le> of_int (2 ^ 53)" by simp
  then have "round_half_even (a / q) \<le> 2 ^ 53"
    using rhe_mono [of "a / q" "of_int (2 ^ 53)"] by (simp only: rhe_of_int)
  then have "of_int (round_half_even (a / q)) \<le> (2::real) ^ 53"
    using of_int_le_iff [of "round_half_even (a / q)" "2 ^ 53", where ?'a = real] by simp
  then have "of_int (round_half_even (a / q)) * q \<le> 2 ^ 53 * q"
    using q by (simp add: mult_right_mono)
  also have "\<dots> = 2 powi (binade a + 1)"
    unfolding q_def using powi_split [of "binade a + 1" 53] by (simp add: algebra_simps)
  finally show ?thesis by (simp add: round64_abs_binade q_def)
qed

lemma round64_abs_ge:
  assumes "0 < a" and "binade a = ilog2 a"
  shows "2 powi (binade a) \<le> round64_abs a"
proof -
  define q :: real where "q = 2 powi (binade a - 52)"
  have q: "0 < q" by (simp add: q_def)
  have eq: "2 powi (binade a) = 2 powi 52 * q"
    unfolding q_def using powi_split [of "binade a" 52] by simp
  have "2 powi 52 * q \<le> a" using ilog2_bounds [OF assms(1)] assms(2) eq by simp
  then have "of_int (2 ^ 52) \<le> a / q" using q by (simp add: field_simps)
  then have "2 ^ 52 \<le> round_half_even (a / q)"
    using rhe_mono [of "of_int (2 ^ 52)" "a / q"] by (simp only: rhe_of_int)
  then have "(2::real) ^ 52 \<le> of_int (round_half_even (a / q))"
    using of_int_le_iff [of "2 ^ 52" "round_half_even (a / q)", where ?'a = real] by simp
  then have "2 ^ 52 * q \<le> of_int (round_half_even (a / q)) * q"
    using q by (simp add: mult_right_mono)
  then show ?thesis using eq by (simp add: round64_abs_binade q_def)
qed

lemma round64_abs_mono:
  assumes "0 < a" and "a \<le> b"
  shows "round64_abs a \<le> round64_abs b"
proof -
  have b: "0 < b" using assms by simp
  have le: "binade a \<le> binade b"
    using ilog2_mono [OF assms] by (simp add: binade_def)
  show ?thesis
  proof (cases "binade a = binade b")
    case True
    define q :: real where "q = 2 powi (binade a - 52)"
    have q: "0 < q" by (simp add: q_def)
    have "a / q \<le> b / q" using assms(2) q by (simp add: divide_right_mono)
    then have "round_half_even (a / q) \<le> round_half_even (b / q)" by (rule rhe_mono)
    then have "of_int (round_half_even (a / q)) * q \<le> of_int (round_half_even (b / q)) * q"
      using q by (simp add: mult_right_mono)
    then show ?thesis using True by (simp add: round64_abs_binade q_def)
  next
    case False
    with le have lt: "binade a + 1 \<le> binade b" by simp
    then have "binade b = ilog2 b" by (auto simp: binade_def max_def split: if_splits)
    then have "2 powi (binade b) \<le> round64_abs b" using b by (intro round64_abs_ge)
    moreover have "round64_abs a \<le> 2 powi (binade a + 1)" using assms(1) by (rule round64_abs_le)
    moreover have "(2::real) powi (binade a + 1) \<le> 2 powi (binade b)"
      using lt by (intro power_int_increasing) simp_all
    ultimately show ?thesis by linarith
  qed
qed

lemma round64_pos_cases:
  assumes "0 < x"
  shows "(round64 x = PInf \<and> huge \<le> round64_abs x)
         \<or> (round64 x = Fin (round64_abs x) \<and> round64_abs x < huge)"
  using assms by (auto simp: round64_def)

lemma round64_neg_cases:
  assumes "x < 0"
  shows "(round64 x = NInf \<and> huge \<le> round64_abs (- x))
         \<or> (round64 x = Fin (- round64_abs (- x)) \<and> round64_abs (- x) < huge)"
  using assms by (auto simp: round64_def)

lemma round64_zero: "round64 0 = Fin 0"
  by (simp add: round64_def)

lemma round64_mono:
  assumes "x \<le> y"
  shows "fle (round64 x) (round64 y)"
proof -
  consider "x = 0" | "0 < x" | "x < 0" by linarith
  then show ?thesis
  proof cases
    case 1
    show ?thesis
    proof (cases "y = 0")
      case True
      with 1 show ?thesis by (simp add: round64_zero)
    next
      case False
      with 1 assms have y: "0 < y" by simp
      have "0 \<le> round64_abs y" using y by (simp add: round64_abs_nonneg)
      with round64_pos_cases [OF y] 1 show ?thesis by (auto simp: round64_zero)
    qed
  next
    case 2
    with assms have y: "0 < y" by simp
    have "round64_abs x \<le> round64_abs y" using 2 assms by (rule round64_abs_mono)
    with round64_pos_cases [OF 2] round64_pos_cases [OF y] show ?thesis by auto
  next
    case 3
    have nx: "0 \<le> round64_abs (- x)" using 3 by (simp add: round64_abs_nonneg)
    consider "y = 0" | "0 < y" | "y < 0" by linarith
    then show ?thesis
    proof cases
      case 1
      with round64_neg_cases [OF 3] nx show ?thesis by (auto simp: round64_zero)
    next
      case 2
      have "0 \<le> round64_abs y" using 2 by (simp add: round64_abs_nonneg)
      with round64_neg_cases [OF 3] round64_pos_cases [OF 2] nx show ?thesis by auto
    next
      case y: 3
      then have "0 < - y" "- y \<le> - x" using assms by simp_all
      then have "round64_abs (- y) \<le> round64_abs (- x)" by (rule round64_abs_mono)
      with round64_neg_cases [OF 3] round64_neg_cases [OF y] show ?thesis by auto
    qed
  qed
qed

lemma round64_overflow:
  assumes "huge \<le> x"
  shows "round64 x = PInf"
proof -
  have x: "0 < x" using assms by (simp add: huge_def)
  have "(2::real) powi 1024 \<le> x" using assms by (simp add: huge_def)
  also have "\<dots> < 2 powi (ilog2 x + 1)" using ilog2_bounds [OF x] by simp
  finally have lt: "(2::real) powi 1024 < 2 powi (ilog2 x + 1)" .
  have "(1024::int) < ilog2 x + 1"
  proof (rule ccontr)
    assume "\<not> 1024 < ilog2 x + 1"
    then have "ilog2 x + 1 \<le> 1024" by simp
    then have "(2::real) powi (ilog2 x + 1) \<le> 2 powi 1024"
      by (intro power_int_increasing) simp_all
    with lt show False by (meson leD)
  qed
  then have b: "binade x = ilog2 x" "1024 \<le> binade x" by (simp_all add: binade_def)
  have "huge = 2 powi 1024" by (simp add: huge_def)
  also have "\<dots> \<le> 2 powi (binade x)" using b(2) by (intro power_int_increasing) simp_all
  also have "\<dots> \<le> round64_abs x" using x b(1) by (rule round64_abs_ge)
  finally show ?thesis using x by (simp add: round64_def)
qed

text \<open>Line 174 on a counter out of range: too many digits for \<open>int\<close>, or a quotient too
  large for a float.\<close>

lemma long_counter_rejected: "4300 < length g \<Longrightarrow> py_int_digits g = Inl ValueError"
  by (simp add: py_int_digits_def)

lemma large_counter_overflows:
  "huge \<le> of_int n / 1000000 \<Longrightarrow> int_truediv n 1000000 = Inl OverflowError"
  by (simp add: int_truediv_def round64_overflow)

section \<open>Order of floats\<close>

lemma round64_not_NaN: "round64 x \<noteq> NaN"
  by (simp add: round64_def)

lemma fle_PInf: "a \<noteq> NaN \<Longrightarrow> fle a PInf"
  by (cases a) simp_all

lemma fle_NInf: "a \<noteq> NaN \<Longrightarrow> fle NInf a"
  by (cases a) simp_all

lemma fle_trans: "fle a b \<Longrightarrow> fle b c \<Longrightarrow> fle a c"
  by (cases a; cases b; cases c) simp_all

lemma fle_refl: "a \<noteq> NaN \<Longrightarrow> fle a a"
  by (cases a) simp_all

lemma fle_not_NaN: "fle a b \<Longrightarrow> a \<noteq> NaN \<and> b \<noteq> NaN"
  by (cases a; cases b) simp_all

lemma nonneg_cases: "fle (Fin 0) v \<Longrightarrow> v = PInf \<or> (\<exists>x. v = Fin x \<and> 0 \<le> x)"
  by (cases v) simp_all

lemma round64_nonneg: "0 \<le> x \<Longrightarrow> fle (Fin 0) (round64 x)"
  using round64_mono [of 0 x] by (simp add: round64_zero)

lemma round64_one: "round64 1 = Fin 1"
  by (simp add: round_eval)

lemma round64_hundred: "round64 100 = Fin 100"
  by (simp add: round_eval)

lemma fmul_nonneg: "fle (Fin 0) v \<Longrightarrow> 0 < c \<Longrightarrow> fle (Fin 0) (fmul v (Fin c))"
  by (cases v) (simp_all add: round64_nonneg)

lemma fadd_nonneg: "fle (Fin 0) a \<Longrightarrow> fle (Fin 0) b \<Longrightarrow> fle (Fin 0) (fadd a b)"
  by (cases a; cases b) (simp_all add: round64_nonneg)

lemma fdiv_defined: "d \<noteq> 0 \<Longrightarrow> \<exists>q. fdiv v (Fin d) = Inr q"
  by (cases v) simp_all

lemma fdiv_mono:
  assumes "0 < d" and "fle v v'" and "fdiv v (Fin d) = Inr q" and "fdiv v' (Fin d) = Inr q'"
  shows "fle q q'"
proof -
  have "x / d \<le> y / d" if "x \<le> y" for x y
    using that assms(1) by (simp add: divide_right_mono)
  then show ?thesis
    using assms
    by (cases v; cases v') (auto simp: fle_PInf fle_NInf round64_not_NaN intro: round64_mono)
qed

lemma fmul_mono:
  assumes "0 < c" and "fle q q'"
  shows "fle (fmul q (Fin c)) (fmul q' (Fin c))"
proof -
  have "x * c \<le> y * c" if "x \<le> y" for x y
    using that assms(1) by (simp add: mult_right_mono)
  then show ?thesis
    using assms
    by (cases q; cases q') (auto simp: fle_PInf fle_NInf round64_not_NaN intro: round64_mono)
qed

lemma py_min_mono:
  assumes "fle a a'"
  shows "fle (py_min a (Fin c)) (py_min a' (Fin c))"
  using assms by (cases a; cases a') (auto simp: py_min_def)

lemma percent_mono:
  assumes "0 < d" and "fle v v'"
    and "percent v (Fin d) = Inr p" and "percent v' (Fin d) = Inr p'"
  shows "fle p p'"
proof -
  obtain q q' where q: "fdiv v (Fin d) = Inr q" "fdiv v' (Fin d) = Inr q'"
    using assms(1) fdiv_defined [of d v] fdiv_defined [of d v'] by auto
  then have "fle q q'" using fdiv_mono [OF assms(1,2)] by blast
  then have "fle (fmul q (Fin 100)) (fmul q' (Fin 100))" by (intro fmul_mono) simp_all
  then have "fle (py_min (fmul q (Fin 100)) (Fin 100)) (py_min (fmul q' (Fin 100)) (Fin 100))"
    by (rule py_min_mono)
  then show ?thesis using assms(3,4) q by (simp add: percent_def)
qed

lemma percent_range:
  assumes "0 < d" and "fle (Fin 0) v"
  shows "\<exists>p. percent v (Fin d) = Inr (Fin p) \<and> 0 \<le> p \<and> p \<le> 100"
proof -
  obtain q where q: "fdiv v (Fin d) = Inr q" using assms(1) fdiv_defined [of d v] by auto
  have "fdiv (Fin 0) (Fin d) = Inr (Fin 0)" using assms(1) by (simp add: round64_zero)
  then have "fle (Fin 0) q" using fdiv_mono [OF assms(1,2) _ q] by blast
  then have "fle (Fin 0) (fmul q (Fin 100))" by (intro fmul_nonneg) simp_all
  then consider "fmul q (Fin 100) = PInf" | x where "fmul q (Fin 100) = Fin x" "0 \<le> x"
    using nonneg_cases by blast
  then show ?thesis
  proof cases
    case 1
    then show ?thesis using q by (simp add: percent_def py_min_def)
  next
    case 2
    then show ?thesis using q by (simp add: percent_def py_min_def)
  qed
qed

section \<open>What a progress line can stand for\<close>

lemma re_search_Some:
  "re_search key cls line = Some g \<Longrightarrow> g \<noteq> [] \<and> (\<forall>c\<in>set g. cls c)"
proof (induction line)
  case Nil
  then show ?case by simp
next
  case (Cons c cs)
  then show ?case
    by (auto simp: Let_def split: if_splits dest: set_takeWhileD)
qed

lemma split_on_parts:
  "p \<in> set (split_on sep s) \<Longrightarrow> sep \<notin> set p \<and> set p \<subseteq> set s"
proof (induction s arbitrary: p)
  case Nil
  then show ?case by simp
next
  case (Cons c cs)
  show ?case
  proof (cases "c = sep")
    case True
    with Cons show ?thesis by auto
  next
    case False
    show ?thesis
    proof (cases "split_on sep cs")
      case Nil
      with Cons.prems False show ?thesis by simp
    next
      case (Cons q qs)
      with Cons.prems False have "p = c # q \<or> p \<in> set qs" by simp
      then show ?thesis
      proof
        assume "p = c # q"
        moreover have "sep \<notin> set q \<and> set q \<subseteq> set cs"
          using Cons.IH [of q] Cons by simp
        ultimately show ?thesis using False by auto
      next
        assume "p \<in> set qs"
        then have "sep \<notin> set p \<and> set p \<subseteq> set cs"
          using Cons.IH [of p] Cons by simp
        then show ?thesis by auto
      qed
    qed
  qed
qed

lemma pow10_pos: "0 < pow10 e"
  by (simp add: pow10_def)

lemma decimal_nonneg: "decimal u = Some x \<Longrightarrow> 0 \<le> x"
  using pow10_pos less_imp_le
  by (auto simp: decimal_def Let_def split: if_splits option.splits
      intro!: mult_nonneg_nonneg add_nonneg_nonneg)

lemma plain_char_facts:
  "plain_char c \<Longrightarrow>
     c \<noteq> CHR ''-'' \<and> c \<noteq> CHR ''+'' \<and> lower_char c \<noteq> CHR ''i'' \<and> lower_char c \<noteq> CHR ''n''"
  by (auto simp: plain_char_def char_eval)

lemma py_float_plain:
  assumes "\<forall>c\<in>set s. plain_char c" and "py_float s = Inr v"
  shows "fle (Fin 0) v"
proof -
  define t where "t = filter (\<lambda>c. c \<noteq> CHR ''_'') (float_strip s)"
  have sub: "set t \<subseteq> set s"
    by (auto simp: t_def float_strip_def dest!: set_dropWhileD)
  show ?thesis
  proof (cases t)
    case Nil
    with assms(2) show ?thesis
      by (simp add: py_float_def Let_def t_def [symmetric] decimal_def lower_def split: if_splits)
  next
    case (Cons c cs)
    then have "plain_char c" using sub assms(1) by auto
    note f = plain_char_facts [OF this]
    from assms(2) Cons f show ?thesis
      by (auto simp: py_float_def Let_def t_def [symmetric] lower_def
          split: if_splits option.splits dest!: decimal_nonneg intro: round64_nonneg)
  qed
qed

lemma hms_seconds_nonneg:
  assumes "\<forall>c\<in>set g. hms_char c" and "hms_seconds g = Inr v"
  shows "fle (Fin 0) v"
proof -
  have plain: "\<forall>c\<in>set p. plain_char c" if "p \<in> set (split_on (CHR '':'') g)" for p
    using split_on_parts [OF that] assms(1) by (auto simp: hms_char_def plain_char_def)
  from assms(2) obtain h m s fh fm fs where
    parts: "split_on (CHR '':'') g = [h, m, s]"
    and fl: "py_float h = Inr fh" "py_float m = Inr fm" "py_float s = Inr fs"
    and v: "v = fadd (fadd (fmul fh (Fin 3600)) (fmul fm (Fin 60))) fs"
    by (auto simp: hms_seconds_def split: list.splits sum.splits)
  have "fle (Fin 0) fh" using py_float_plain [OF plain fl(1)] parts by simp
  moreover have "fle (Fin 0) fm" using py_float_plain [OF plain fl(2)] parts by simp
  moreover have "fle (Fin 0) fs" using py_float_plain [OF plain fl(3)] parts by simp
  ultimately show ?thesis unfolding v
    by (intro fadd_nonneg fmul_nonneg) simp_all
qed

lemma int_truediv_nonneg:
  assumes "0 \<le> n" and "int_truediv n 1000000 = Inr v"
  shows "fle (Fin 0) v"
proof -
  have "fle (Fin 0) (round64 (of_int n / of_int 1000000))"
    using assms(1) by (intro round64_nonneg) simp
  moreover have "v = round64 (of_int n / of_int 1000000)"
    using assms(2) by (auto simp: int_truediv_def split: pyfloat.splits)
  ultimately show ?thesis by simp
qed

lemma done_seconds_nonneg:
  assumes "done_seconds line = Inr (Some v)"
  shows "fle (Fin 0) v"
proof (cases "re_us line")
  case (Some g)
  with assms obtain n where "py_int_digits g = Inr n" "int_truediv n 1000000 = Inr v"
    by (auto simp: done_seconds_def split: sum.splits)
  moreover from this have "0 \<le> n" by (auto simp: py_int_digits_def split: if_splits)
  ultimately show ?thesis using int_truediv_nonneg by blast
next
  case None
  with assms obtain g where g: "re_hms line = Some g" and h: "hms_seconds g = Inr v"
    by (auto simp: done_seconds_def split: option.splits sum.splits)
  from g have "\<forall>c\<in>set g. hms_char c"
    using re_search_Some [of "''out_time=''" hms_char line g] by (simp add: re_hms_def)
  then show ?thesis using h by (rule hms_seconds_nonneg)
qed

section \<open>Truncation and the percentage of an elapsed time\<close>

lemma trunc_mono: "x \<le> y \<Longrightarrow> trunc x \<le> trunc y"
proof -
  assume xy: "x \<le> y"
  have "\<lceil>x\<rceil> \<le> \<lfloor>y\<rfloor>" if "x < 0" "0 \<le> y"
  proof -
    from that have "\<lceil>x\<rceil> \<le> 0" by (simp add: ceiling_le_zero)
    also from that have "0 \<le> \<lfloor>y\<rfloor>" by simp
    finally show ?thesis .
  qed
  then show ?thesis using xy
    by (auto simp: trunc_def floor_mono ceiling_mono)
qed

lemma trunc_nonneg: "0 \<le> x \<Longrightarrow> 0 \<le> trunc x"
  by (simp add: trunc_def)

lemma step_elapsed:
  assumes "0 < d" and "done_seconds line = Inr (Some v)"
  shows "\<exists>p. percent v (Fin d) = Inr (Fin p) \<and> whole_percent (Fin d) v = trunc p
           \<and> step (Fin d) line st =
               (if trunc p \<noteq> last_pct st
                then Inr (st\<lparr>updates := updates st @ [(Fin p, trunc p)], last_pct := trunc p\<rparr>)
                else Inr st)"
  using percent_range [OF assms(1) done_seconds_nonneg [OF assms(2)]] assms(2)
  by (auto simp: step_def line_percent_def whole_percent_def)

lemma whole_percent_nonneg:
  assumes "0 < d" and "fle (Fin 0) v"
  shows "0 \<le> whole_percent (Fin d) v"
  using percent_range [OF assms] by (auto simp: whole_percent_def intro: trunc_nonneg)

lemma whole_percent_mono:
  assumes "0 < d" and "fle (Fin 0) v" and "fle v v'"
  shows "whole_percent (Fin d) v \<le> whole_percent (Fin d) v'"
proof -
  have "fle (Fin 0) v'" using assms(2,3) by (rule fle_trans)
  then obtain p' where p': "percent v' (Fin d) = Inr (Fin p')"
    using percent_range [OF assms(1)] by blast
  obtain p where p: "percent v (Fin d) = Inr (Fin p)"
    using percent_range [OF assms(1,2)] by blast
  have "fle (Fin p) (Fin p')" using percent_mono [OF assms(1,3) p p'] .
  then have "trunc p \<le> trunc p'" by (simp add: trunc_mono)
  then show ?thesis using p p' by (simp add: whole_percent_def)
qed

lemma elapsed_times_nonneg: "v \<in> set (elapsed_times lines) \<Longrightarrow> fle (Fin 0) v"
proof (induction lines)
  case Nil
  then show ?case by simp
next
  case (Cons l ls)
  then show ?case
    by (auto split: sum.splits option.splits dest: done_seconds_nonneg)
qed

section \<open>The loop and its throttle\<close>

lemma step_cases:
  assumes "step total_duration line st = Inr st'"
  shows "st' = st \<or> (\<exists>pct k. k \<noteq> last_pct st \<and> st' = st\<lparr>updates := updates st @ [(pct, k)], last_pct := k\<rparr>)"
proof (cases "line_percent total_duration line")
  case (Inl e)
  with assms show ?thesis by (simp add: step_def)
next
  case (Inr r)
  show ?thesis
  proof (cases r)
    case None
    with Inr assms show ?thesis by (simp add: step_def)
  next
    case (Some pct)
    show ?thesis
    proof (cases "py_int pct")
      case (Inl e)
      with Inr Some assms show ?thesis by (simp add: step_def)
    next
      case k: (Inr k)
      show ?thesis
      proof (cases "k = last_pct st")
        case True
        with Inr Some k assms show ?thesis by (simp add: step_def)
      next
        case False
        with Inr Some k assms have "st' = st\<lparr>updates := updates st @ [(pct, k)], last_pct := k\<rparr>"
          by (simp add: step_def)
        with False show ?thesis by blast
      qed
    qed
  qed
qed

lemma throttled_update:
  assumes "throttled st" and "k \<noteq> last_pct st"
  shows "throttled (st\<lparr>updates := updates st @ [(pct, k)], last_pct := k\<rparr>)"
proof -
  have "emitted (st\<lparr>updates := updates st @ [(pct, k)], last_pct := k\<rparr>) = emitted st @ [k]"
    by (simp add: emitted_def)
  moreover have "distinct_adj (emitted st @ [k])"
  proof (cases "updates st = []")
    case True
    then show ?thesis by (simp add: emitted_def)
  next
    case False
    then have "emitted st \<noteq> []" "last (emitted st) \<noteq> k"
      using assms by (auto simp: throttled_def emitted_def)
    then show ?thesis using assms(1)
      by (simp add: distinct_adj_append_iff throttled_def)
  qed
  ultimately show ?thesis by (simp add: throttled_def)
qed

lemma step_throttled:
  assumes "throttled st" and "step total_duration line st = Inr st'"
  shows "throttled st'"
  using step_cases [OF assms(2)] assms(1) throttled_update by blast

lemma run_lines_throttled:
  "throttled st \<Longrightarrow> throttled (fst (run_lines total_duration lines st))"
proof (induction lines arbitrary: st)
  case Nil
  then show ?case by simp
next
  case (Cons l ls)
  show ?case
  proof (cases "step total_duration l st")
    case (Inl e)
    with Cons.prems show ?thesis by simp
  next
    case (Inr st')
    with Cons.prems have "throttled st'" by (rule step_throttled)
    with Inr show ?thesis by (simp add: Cons.IH)
  qed
qed

lemma throttled_initial: "throttled initial_state"
  by (simp add: throttled_def initial_state_def emitted_def)

lemma run_lines_sorted:
  assumes "0 < d"
  shows "sorted_wrt fle (elapsed_times lines) \<Longrightarrow> sorted (emitted st)
     \<Longrightarrow> \<forall>k\<in>set (emitted st). k \<le> last_pct st
     \<Longrightarrow> \<forall>v\<in>set (elapsed_times lines). last_pct st \<le> whole_percent (Fin d) v
     \<Longrightarrow> sorted (emitted (fst (run_lines (Fin d) lines st)))"
proof (induction lines arbitrary: st)
  case Nil
  then show ?case by simp
next
  case (Cons l ls)
  show ?case
  proof (cases "done_seconds l")
    case (Inl err)
    then have "step (Fin d) l st = Inl err"
      by (simp add: step_def line_percent_def)
    with Cons.prems show ?thesis by simp
  next
    case (Inr r)
    show ?thesis
    proof (cases r)
      case None
      with Inr have "step (Fin d) l st = Inr st" "elapsed_times (l # ls) = elapsed_times ls"
        by (simp_all add: step_def line_percent_def)
      with Cons show ?thesis by simp
    next
      case (Some v)
      with Inr have v: "done_seconds l = Inr (Some v)" by simp
      then have el: "elapsed_times (l # ls) = v # elapsed_times ls" by simp
      have nn: "fle (Fin 0) v" using v by (rule done_seconds_nonneg)
      define k where "k = whole_percent (Fin d) v"
      obtain p where p: "k = trunc p"
        and st: "step (Fin d) l st =
               (if k \<noteq> last_pct st
                then Inr (st\<lparr>updates := updates st @ [(Fin p, k)], last_pct := k\<rparr>)
                else Inr st)"
        using step_elapsed [OF assms v, of st] by (auto simp: k_def)
      have later: "\<forall>v'\<in>set (elapsed_times ls). k \<le> whole_percent (Fin d) v'"
        using Cons.prems(1) el whole_percent_mono [OF assms nn] by (auto simp: k_def)
      have srt: "sorted_wrt fle (elapsed_times ls)" using Cons.prems(1) el by simp
      have le_k: "last_pct st \<le> k" using Cons.prems(4) el by (simp add: k_def)
      show ?thesis
      proof (cases "k = last_pct st")
        case True
        then have "step (Fin d) l st = Inr st" using st by simp
        moreover have "sorted (emitted (fst (run_lines (Fin d) ls st)))"
          using Cons.IH [OF srt Cons.prems(2) Cons.prems(3)] later True by simp
        ultimately show ?thesis by simp
      next
        case False
        define st' where "st' = st\<lparr>updates := updates st @ [(Fin p, k)], last_pct := k\<rparr>"
        have st2: "step (Fin d) l st = Inr st'"
          using st False by (simp add: st'_def)
        have em: "emitted st' = emitted st @ [k]" "last_pct st' = k"
          by (simp_all add: st'_def emitted_def)
        have "sorted (emitted st')"
          using Cons.prems(2,3) le_k by (auto simp: em sorted_append)
        moreover have "\<forall>j\<in>set (emitted st'). j \<le> last_pct st'"
          using Cons.prems(3) le_k by (auto simp: em)
        moreover have "\<forall>v'\<in>set (elapsed_times ls). last_pct st' \<le> whole_percent (Fin d) v'"
          using later by (simp add: em)
        ultimately have "sorted (emitted (fst (run_lines (Fin d) ls st')))"
          using Cons.IH [OF srt] by blast
        with st2 show ?thesis by simp
      qed
    qed
  qed
qed

lemma clamp_inside: "0 \<le> x \<Longrightarrow> x \<le> 100 \<Longrightarrow> clamp x 0 100 = x"
  by (simp add: clamp_def)

lemma same_instant_two_encodings:
  "py_float ''60.019482'' = Inr (Fin (8446991149067819 / 140737488355328))
   \<and> elapsed_times [''out_time_ms=60019482'', ''out_time=00:01:00.019482'']
       = [Fin (8446991149067819 / 140737488355328), Fin (8446991149067818 / 140737488355328)]
   \<and> emitted (fst (run_lines (Fin (8446991149067819 / 140737488355328))
        [''out_time_ms=60019482'', ''out_time=00:01:00.019482''] initial_state)) = [100, 99]"
  by (simp add: run_eval line_eval float_eval char_eval)

section \<open>The texts that float reads\<close>

lemma digit_facts:
  "is_digit c \<Longrightarrow> c \<noteq> CHR ''_'' \<and> c \<noteq> CHR ''-'' \<and> c \<noteq> CHR ''+'' \<and> c \<noteq> CHR ''.''
     \<and> c \<noteq> CHR ''e'' \<and> c \<noteq> CHR ''E'' \<and> c \<noteq> CHR 0x00 \<and> \<not> is_float_space c"
  by (auto simp: char_eval)

lemma underscores_ok_iff:
  "underscores_ok p s =
     ((p = CHR ''_'' \<longrightarrow> s \<noteq> [] \<and> is_digit (hd s))
      \<and> (\<forall>l r. s = l @ CHR ''_'' # r \<longrightarrow> is_digit (last (p # l)) \<and> r \<noteq> [] \<and> is_digit (hd r)))"
proof (induction s arbitrary: p)
  case Nil
  show ?case by simp
next
  case (Cons c cs)
  have split: "(\<forall>l r. c # cs = l @ CHR ''_'' # r \<longrightarrow> is_digit (last (p # l)) \<and> r \<noteq> [] \<and> is_digit (hd r))
      = ((c = CHR ''_'' \<longrightarrow> is_digit p \<and> cs \<noteq> [] \<and> is_digit (hd cs))
         \<and> (\<forall>l r. cs = l @ CHR ''_'' # r \<longrightarrow> is_digit (last (c # l)) \<and> r \<noteq> [] \<and> is_digit (hd r)))"
    (is "?A = (?B \<and> ?C)")
  proof
    assume a: ?A
    have ?B using a [rule_format, of "[]" cs] by simp
    moreover have ?C
    proof (intro allI impI)
      fix l r assume "cs = l @ CHR ''_'' # r"
      then have "c # cs = (c # l) @ CHR ''_'' # r" by simp
      from a [rule_format, OF this] show "is_digit (last (c # l)) \<and> r \<noteq> [] \<and> is_digit (hd r)"
        by simp
    qed
    ultimately show "?B \<and> ?C" ..
  next
    assume bc: "?B \<and> ?C"
    show ?A
    proof (intro allI impI)
      fix l r assume eq: "c # cs = l @ CHR ''_'' # r"
      show "is_digit (last (p # l)) \<and> r \<noteq> [] \<and> is_digit (hd r)"
      proof (cases l)
        case Nil
        with eq bc show ?thesis by simp
      next
        case (Cons x l')
        with eq have "x = c" "cs = l' @ CHR ''_'' # r" by simp_all
        with bc Cons show ?thesis by simp
      qed
    qed
  qed
  show ?case
    unfolding split underscores_ok.simps Cons.IH [of c]
    using digit_facts [of p] digit_facts [of c] by auto
qed

lemma underscores_ok_start:
  "underscores_ok (CHR 0x00) s = underscores_between_digits s"
proof -
  have "is_digit (last (CHR 0x00 # l)) = (l \<noteq> [] \<and> is_digit (last l))" for l
    using digit_facts [of "CHR 0x00"] by (cases l) auto
  then show ?thesis
    by (simp add: underscores_ok_iff underscores_between_digits_def)
qed

lemma span_digits:
  assumes "digits ip" and "rest = [] \<or> \<not> is_digit (hd rest)"
  shows "takeWhile is_digit (ip @ rest) = ip" and "dropWhile is_digit (ip @ rest) = rest"
proof -
  have all: "\<And>x. x \<in> set ip \<Longrightarrow> is_digit x"
    using assms(1) by (simp add: digits_def list_all_iff)
  have "takeWhile is_digit rest = []" using assms(2) by (simp add: takeWhile_eq_Nil_iff)
  then show "takeWhile is_digit (ip @ rest) = ip" using all by simp
  have "dropWhile is_digit rest = rest" using assms(2) by (simp add: dropWhile_eq_self_iff)
  then show "dropWhile is_digit (ip @ rest) = rest" using all by simp
qed

lemma exponent_iff: "(exponent ex \<noteq> None) = exponent_part ex"
proof
  assume a: "exponent ex \<noteq> None"
  show "exponent_part ex"
  proof (cases ex)
    case Nil
    then show ?thesis by (simp add: exponent_part_def)
  next
    case (Cons c cs)
    define ds where "ds = (if cs \<noteq> [] \<and> (hd cs = CHR ''-'' \<or> hd cs = CHR ''+'') then tl cs else cs)"
    from a Cons have c: "c = CHR ''e'' \<or> c = CHR ''E''" and ds: "ds \<noteq> []" "list_all is_digit ds"
      by (auto simp: exponent_def Let_def ds_def split: if_splits)
    have "\<exists>sg. cs = sg @ ds \<and> sign_part sg"
    proof (cases "cs \<noteq> [] \<and> (hd cs = CHR ''-'' \<or> hd cs = CHR ''+'')")
      case True
      then have "cs = [hd cs] @ ds" "sign_part [hd cs]"
        by (auto simp: ds_def sign_part_def)
      then show ?thesis by blast
    next
      case False
      then have "cs = [] @ ds" "sign_part []" by (auto simp: ds_def sign_part_def)
      then show ?thesis by blast
    qed
    then show ?thesis using Cons c ds by (auto simp: exponent_part_def digits_def)
  qed
next
  assume "exponent_part ex"
  then consider "ex = []"
    | c sg ds where "ex = c # sg @ ds" "c = CHR ''e'' \<or> c = CHR ''E''" "sign_part sg"
        "ds \<noteq> []" "digits ds"
    by (auto simp: exponent_part_def)
  then show "exponent ex \<noteq> None"
  proof cases
    case 1
    then show ?thesis by (simp add: exponent_def)
  next
    case 2
    from 2(4,5) have hd: "is_digit (hd ds)" by (cases ds) (simp_all add: digits_def)
    note f = digit_facts [OF hd]
    from 2(3) consider "sg = []" | "sg = ''+''" | "sg = ''-''" by (auto simp: sign_part_def)
    then show ?thesis
    proof cases
      case 1
      with 2 f show ?thesis by (auto simp: exponent_def Let_def digits_def)
    next
      case 2
      with \<open>ex = c # sg @ ds\<close> \<open>c = CHR ''e'' \<or> c = CHR ''E''\<close> \<open>ds \<noteq> []\<close> \<open>digits ds\<close>
      show ?thesis by (auto simp: exponent_def Let_def digits_def)
    next
      case 3
      with \<open>ex = c # sg @ ds\<close> \<open>c = CHR ''e'' \<or> c = CHR ''E''\<close> \<open>ds \<noteq> []\<close> \<open>digits ds\<close>
      show ?thesis by (auto simp: exponent_def Let_def digits_def)
    qed
  qed
qed

lemma exponent_part_head: "exponent_part ex \<Longrightarrow> ex = [] \<or> (\<not> is_digit (hd ex) \<and> hd ex \<noteq> CHR ''.'')"
  by (auto simp: exponent_part_def char_eval)

lemma digits_append: "digits (a @ b) = (digits a \<and> digits b)"
  by (simp add: digits_def)

lemma digits_takeWhile: "digits (takeWhile is_digit s)"
  by (simp add: digits_def list_all_iff) (auto dest: set_takeWhileD)

lemma decimal_not_None:
  "(decimal u \<noteq> None) =
     (let ip = takeWhile is_digit u;
          r1 = dropWhile is_digit u;
          fp = (if r1 \<noteq> [] \<and> hd r1 = CHR ''.'' then takeWhile is_digit (tl r1) else []);
          r2 = (if r1 \<noteq> [] \<and> hd r1 = CHR ''.'' then dropWhile is_digit (tl r1) else r1)
      in (ip \<noteq> [] \<or> fp \<noteq> []) \<and> exponent r2 \<noteq> None)"
  by (auto simp: decimal_def Let_def split: option.splits)

lemma decimal_iff: "(decimal u \<noteq> None) = decimal_literal u"
proof
  assume a: "decimal u \<noteq> None"
  define ip where "ip = takeWhile is_digit u"
  define r1 where "r1 = dropWhile is_digit u"
  have u: "u = ip @ r1" by (simp add: ip_def r1_def)
  have dip: "digits ip" by (simp add: ip_def digits_takeWhile)
  show "decimal_literal u"
  proof (cases "r1 \<noteq> [] \<and> hd r1 = CHR ''.''")
    case True
    define fd where "fd = takeWhile is_digit (tl r1)"
    define r2 where "r2 = dropWhile is_digit (tl r1)"
    have r1: "r1 = CHR ''.'' # fd @ r2" using True by (cases r1) (simp_all add: fd_def r2_def)
    from a True have "ip \<noteq> [] \<or> fd \<noteq> []" and "exponent r2 \<noteq> None"
      unfolding decimal_not_None Let_def ip_def [symmetric] r1_def [symmetric]
      by (simp_all add: fd_def r2_def)
    then have "u = ip @ CHR ''.'' # fd @ r2 \<and> (ip \<noteq> [] \<or> fd \<noteq> [])" "exponent_part r2"
      using u r1 exponent_iff [of r2] by auto
    moreover have "digits fd" by (simp add: fd_def digits_takeWhile)
    ultimately show ?thesis using dip unfolding decimal_literal_def by blast
  next
    case False
    with a have "ip \<noteq> []" and "exponent r1 \<noteq> None"
      unfolding decimal_not_None Let_def ip_def [symmetric] r1_def [symmetric]
      by simp_all
    then have "u = ip @ r1 \<and> ip \<noteq> []" "exponent_part r1"
      using u exponent_iff [of r1] by auto
    moreover have "digits []" by (simp add: digits_def)
    ultimately show ?thesis using dip unfolding decimal_literal_def by blast
  qed
next
  assume "decimal_literal u"
  then obtain ip fd ex where
    shape: "u = ip @ ex \<and> ip \<noteq> [] \<or> u = ip @ CHR ''.'' # fd @ ex \<and> (ip \<noteq> [] \<or> fd \<noteq> [])"
    and d: "digits ip" "digits fd" and ex: "exponent_part ex"
    unfolding decimal_literal_def by blast
  have exh: "ex = [] \<or> \<not> is_digit (hd ex)" using exponent_part_head [OF ex] by auto
  have exd: "ex = [] \<or> hd ex \<noteq> CHR ''.''" using exponent_part_head [OF ex] by auto
  have exn: "exponent ex \<noteq> None" using ex exponent_iff [of ex] by blast
  from shape show "decimal u \<noteq> None"
  proof
    assume a: "u = ip @ ex \<and> ip \<noteq> []"
    have tw: "takeWhile is_digit u = ip" "dropWhile is_digit u = ex"
      using span_digits [OF d(1) exh] a by simp_all
    have ne: "ip \<noteq> []" using a by simp
    have nodot: "\<not> (ex \<noteq> [] \<and> hd ex = CHR ''.'')" using exd by auto
    show ?thesis unfolding decimal_not_None Let_def tw using ne nodot exn by auto
  next
    assume a: "u = ip @ CHR ''.'' # fd @ ex \<and> (ip \<noteq> [] \<or> fd \<noteq> [])"
    have nd: "\<not> is_digit (CHR ''.'')" by (simp add: char_eval)
    have tw: "takeWhile is_digit u = ip" "dropWhile is_digit u = CHR ''.'' # fd @ ex"
      using span_digits [OF d(1), of "CHR ''.'' # fd @ ex"] a nd by simp_all
    have tw2: "takeWhile is_digit (fd @ ex) = fd" "dropWhile is_digit (fd @ ex) = ex"
      using span_digits [OF d(2) exh] by simp_all
    have ne: "ip \<noteq> [] \<or> fd \<noteq> []" using a by simp
    show ?thesis unfolding decimal_not_None Let_def tw using ne exn by (simp add: tw2)
  qed
qed

lemma decimal_literal_head:
  assumes "decimal_literal u"
  shows "u \<noteq> [] \<and> (is_digit (hd u) \<or> hd u = CHR ''.'')"
proof -
  from assms obtain ip fd ex where
    shape: "u = ip @ ex \<and> ip \<noteq> [] \<or> u = ip @ CHR ''.'' # fd @ ex \<and> (ip \<noteq> [] \<or> fd \<noteq> [])"
    and d: "digits ip"
    unfolding decimal_literal_def by blast
  show ?thesis
  proof (cases ip)
    case Nil
    with shape show ?thesis by auto
  next
    case (Cons c cs)
    with d have "is_digit c" by (simp add: digits_def)
    with shape Cons show ?thesis by auto
  qed
qed

lemma decimal_literal_last:
  assumes "decimal_literal u"
  shows "is_digit (last u) \<or> last u = CHR ''.''"
proof -
  from assms obtain ip fd ex where
    shape: "u = ip @ ex \<and> ip \<noteq> [] \<or> u = ip @ CHR ''.'' # fd @ ex \<and> (ip \<noteq> [] \<or> fd \<noteq> [])"
    and d: "digits ip" "digits fd" and ex: "exponent_part ex"
    unfolding decimal_literal_def by blast
  have dl: "is_digit (last xs)" if "digits xs" "xs \<noteq> []" for xs
    using that by (simp add: digits_def list_all_iff)
  from ex consider "ex = []"
    | c sg ds where "ex = c # sg @ ds" "ds \<noteq> []" "digits ds"
    by (auto simp: exponent_part_def)
  then show ?thesis
  proof cases
    case 1
    with shape d dl show ?thesis by (cases "fd = []") auto
  next
    case 2
    then have "last ex = last ds" by simp
    moreover have "ex \<noteq> []" using 2 by simp
    ultimately have "is_digit (last ex)" using dl [OF 2(3,2)] by simp
    with shape \<open>ex \<noteq> []\<close> show ?thesis by auto
  qed
qed

lemma special_literal_shape:
  assumes "special_literal u"
  shows "u \<noteq> [] \<and> lower_char (hd u) \<in> {CHR ''i'', CHR ''n''}
         \<and> lower_char (last u) \<in> {CHR ''f'', CHR ''y'', CHR ''n''}"
proof -
  from assms have "map lower_char u = ''inf'' \<or> map lower_char u = ''infinity''
      \<or> map lower_char u = ''nan''"
    by (simp add: special_literal_def lower_def)
  then have ne: "u \<noteq> []" by auto
  then have "hd (map lower_char u) = lower_char (hd u)" "last (map lower_char u) = lower_char (last u)"
    by (simp_all add: hd_map last_map)
  moreover have "hd (map lower_char u) \<in> {CHR ''i'', CHR ''n''}
      \<and> last (map lower_char u) \<in> {CHR ''f'', CHR ''y'', CHR ''n''}"
    using \<open>map lower_char u = ''inf'' \<or> map lower_char u = ''infinity'' \<or> map lower_char u = ''nan''\<close>
    by auto
  ultimately show ?thesis using ne by simp
qed

lemma lower_char_facts:
  "lower_char c \<in> {CHR ''i'', CHR ''n'', CHR ''f'', CHR ''y''} \<Longrightarrow>
     c \<noteq> CHR ''-'' \<and> c \<noteq> CHR ''+'' \<and> c \<noteq> CHR ''_'' \<and> \<not> is_float_space c"
  by (auto simp: char_eval)

lemma body_ends:
  assumes "special_literal u \<or> decimal_literal u"
  shows "u \<noteq> [] \<and> hd u \<noteq> CHR ''-'' \<and> hd u \<noteq> CHR ''+'' \<and> \<not> is_float_space (hd u)
         \<and> \<not> is_float_space (last u)"
proof -
  have dot: "\<not> is_float_space (CHR ''.'')" by (simp add: char_eval)
  from assms show ?thesis
  proof
    assume "special_literal u"
    from special_literal_shape [OF this] lower_char_facts [of "hd u"] lower_char_facts [of "last u"]
    show ?thesis by auto
  next
    assume d: "decimal_literal u"
    from decimal_literal_head [OF d] decimal_literal_last [OF d] digit_facts [of "hd u"]
      digit_facts [of "last u"] dot
    show ?thesis by auto
  qed
qed

lemma float_strip_eq:
  assumes "list_all is_float_space l" and "list_all is_float_space r"
    and "s \<noteq> []" and "\<not> is_float_space (hd s)" and "\<not> is_float_space (last s)"
  shows "float_strip (l @ s @ r) = s"
proof -
  have l: "\<And>x. x \<in> set l \<Longrightarrow> is_float_space x" using assms(1) by (simp add: list_all_iff)
  have r: "\<And>x. x \<in> set (rev r) \<Longrightarrow> is_float_space x" using assms(2) by (simp add: list_all_iff)
  have r2: "dropWhile is_float_space (rev r @ rev s) = dropWhile is_float_space (rev s)"
    by (rule dropWhile_append2) (rule r)
  have "hd (s @ r) = hd s" using assms(3) by simp
  then have "dropWhile is_float_space (s @ r) = s @ r"
    using assms(3,4) by (simp add: dropWhile_eq_self_iff)
  then have 1: "dropWhile is_float_space (l @ s @ r) = s @ r" using l by simp
  have "hd (rev s) = last s" using assms(3) by (simp add: hd_rev)
  then have "dropWhile is_float_space (rev s) = rev s"
    using assms(5) by (simp add: dropWhile_eq_self_iff)
  then have "dropWhile is_float_space (rev r @ rev s) = rev s" using r2 by simp
  then show ?thesis by (simp add: float_strip_def 1)
qed

lemma float_strip_decomp:
  "\<exists>l r. text = l @ float_strip text @ r \<and> list_all is_float_space l \<and> list_all is_float_space r"
proof -
  define l where "l = takeWhile is_float_space text"
  define m where "m = dropWhile is_float_space text"
  define r where "r = rev (takeWhile is_float_space (rev m))"
  have "m = rev (rev m)" by simp
  also have "\<dots> = rev (takeWhile is_float_space (rev m) @ dropWhile is_float_space (rev m))"
    by (simp only: takeWhile_dropWhile_id)
  also have "\<dots> = rev (dropWhile is_float_space (rev m)) @ rev (takeWhile is_float_space (rev m))"
    by (rule rev_append)
  finally have "m = float_strip text @ r"
    by (simp only: float_strip_def m_def r_def)
  moreover have "text = l @ m" by (simp add: l_def m_def)
  moreover have "list_all is_float_space l" "list_all is_float_space r"
    by (auto simp: l_def r_def list_all_iff dest: set_takeWhileD)
  ultimately show ?thesis by blast
qed

lemma sign_split:
  assumes "\<And>b. P b \<Longrightarrow> b \<noteq> [] \<and> hd b \<noteq> CHR ''-'' \<and> hd b \<noteq> CHR ''+''"
  shows "P (if t \<noteq> [] \<and> (hd t = CHR ''-'' \<or> hd t = CHR ''+'') then tl t else t)
         = (\<exists>sg body. t = sg @ body \<and> sign_part sg \<and> P body)"
proof
  assume a: "P (if t \<noteq> [] \<and> (hd t = CHR ''-'' \<or> hd t = CHR ''+'') then tl t else t)"
  show "\<exists>sg body. t = sg @ body \<and> sign_part sg \<and> P body"
  proof (cases "t \<noteq> [] \<and> (hd t = CHR ''-'' \<or> hd t = CHR ''+'')")
    case True
    then have "t = [hd t] @ tl t" "sign_part [hd t]" by (auto simp: sign_part_def)
    moreover from a True have "P (tl t)" by simp
    ultimately show ?thesis by blast
  next
    case False
    then have "(if t \<noteq> [] \<and> (hd t = CHR ''-'' \<or> hd t = CHR ''+'') then tl t else t) = t"
      by (rule if_not_P)
    with a have "P t" by (simp only:)
    moreover have "t = [] @ t" "sign_part []" by (simp_all add: sign_part_def)
    ultimately show ?thesis by blast
  qed
next
  assume "\<exists>sg body. t = sg @ body \<and> sign_part sg \<and> P body"
  then obtain sg body where t: "t = sg @ body" and sg: "sign_part sg" and p: "P body" by blast
  note b = assms [OF p]
  from sg consider "sg = []" | "sg = ''+''" | "sg = ''-''" by (auto simp: sign_part_def)
  then show "P (if t \<noteq> [] \<and> (hd t = CHR ''-'' \<or> hd t = CHR ''+'') then tl t else t)"
  proof cases
    case 1
    with t b p show ?thesis by simp
  next
    case 2
    with t p show ?thesis by simp
  next
    case 3
    with t p show ?thesis by simp
  qed
qed

lemma py_float_accepts_strip:
  "(\<exists>v. py_float text = Inr v) =
     (underscores_ok (CHR 0x00) (float_strip text)
      \<and> (let t = filter (\<lambda>c. c \<noteq> CHR ''_'') (float_strip text);
              u = (if t \<noteq> [] \<and> (hd t = CHR ''-'' \<or> hd t = CHR ''+'') then tl t else t)
          in special_literal u \<or> decimal u \<noteq> None))"
  by (auto simp: py_float_def Let_def special_literal_def split: option.splits)

lemma body_head:
  "special_literal b \<or> decimal_literal b \<Longrightarrow> b \<noteq> [] \<and> hd b \<noteq> CHR ''-'' \<and> hd b \<noteq> CHR ''+''"
  using body_ends [of b] by simp

lemma stripped_accepts:
  "(underscores_ok (CHR 0x00) s
      \<and> (let t = filter (\<lambda>c. c \<noteq> CHR ''_'') s;
              u = (if t \<noteq> [] \<and> (hd t = CHR ''-'' \<or> hd t = CHR ''+'') then tl t else t)
          in special_literal u \<or> decimal u \<noteq> None))
   = (underscores_between_digits s
      \<and> (\<exists>sg body. filter (\<lambda>c. c \<noteq> CHR ''_'') s = sg @ body \<and> sign_part sg
            \<and> (special_literal body \<or> decimal_literal body)))"
proof -
  note 1 = sign_split [of "\<lambda>b. special_literal b \<or> decimal_literal b"
      "filter (\<lambda>c. c \<noteq> CHR ''_'') s", OF body_head]
  show ?thesis
    unfolding Let_def underscores_ok_start decimal_iff by (simp only: 1)
qed

lemma hd_filter_keep: "s \<noteq> [] \<Longrightarrow> P (hd s) \<Longrightarrow> hd (filter P s) = hd s"
  by (cases s) simp_all

lemma last_filter_keep:
  assumes "s \<noteq> []" and "P (last s)"
  shows "last (filter P s) = last s"
proof -
  have "last (filter P s) = hd (rev (filter P s))" by (simp add: hd_rev)
  also have "\<dots> = hd (filter P (rev s))" by (simp add: rev_filter)
  also have "\<dots> = hd (rev s)" using assms by (intro hd_filter_keep) (simp_all add: hd_rev)
  also have "\<dots> = last s" by (simp add: hd_rev)
  finally show ?thesis .
qed

lemma literal_ends:
  assumes u: "underscores_between_digits s"
    and f: "filter (\<lambda>c. c \<noteq> CHR ''_'') s = sg @ body" and sg: "sign_part sg"
    and b: "special_literal body \<or> decimal_literal body"
  shows "s \<noteq> [] \<and> \<not> is_float_space (hd s) \<and> \<not> is_float_space (last s)"
proof -
  note e = body_ends [OF b]
  have ne: "s \<noteq> []" using f e by auto
  have h: "hd s \<noteq> CHR ''_''"
  proof
    assume "hd s = CHR ''_''"
    with ne have "s = [] @ CHR ''_'' # tl s" by (cases s) simp_all
    with u show False unfolding underscores_between_digits_def by blast
  qed
  have l: "last s \<noteq> CHR ''_''"
  proof
    assume "last s = CHR ''_''"
    with ne have "s = butlast s @ CHR ''_'' # []" by (metis append_butlast_last_id)
    with u show False unfolding underscores_between_digits_def by blast
  qed
  have "hd (filter (\<lambda>c. c \<noteq> CHR ''_'') s) = hd s" using ne h by (rule hd_filter_keep)
  moreover have "last (filter (\<lambda>c. c \<noteq> CHR ''_'') s) = last s"
    using ne l by (rule last_filter_keep)
  moreover have "\<not> is_float_space (hd (sg @ body))"
    using sg e by (auto simp: sign_part_def char_eval)
  moreover have "\<not> is_float_space (last (sg @ body))" using e by simp
  ultimately show ?thesis using ne f by simp
qed

lemma py_float_accepts: "(\<exists>v. py_float text = Inr v) = float_literal text"
proof
  assume "\<exists>v. py_float text = Inr v"
  then have "underscores_between_digits (float_strip text)
      \<and> (\<exists>sg body. filter (\<lambda>c. c \<noteq> CHR ''_'') (float_strip text) = sg @ body \<and> sign_part sg
            \<and> (special_literal body \<or> decimal_literal body))"
    unfolding py_float_accepts_strip stripped_accepts .
  with float_strip_decomp [of "text"] show "float_literal text"
    unfolding float_literal_def by blast
next
  assume "float_literal text"
  then obtain l s r sg body where
    t: "text = l @ s @ r" and ws: "list_all is_float_space l" "list_all is_float_space r"
    and u: "underscores_between_digits s"
    and f: "filter (\<lambda>c. c \<noteq> CHR ''_'') s = sg @ body" and sg: "sign_part sg"
    and b: "special_literal body \<or> decimal_literal body"
    unfolding float_literal_def by blast
  from literal_ends [OF u f sg b] have "float_strip text = s"
    unfolding t using ws by (intro float_strip_eq) simp_all
  moreover have "underscores_between_digits s
      \<and> (\<exists>sg body. filter (\<lambda>c. c \<noteq> CHR ''_'') s = sg @ body \<and> sign_part sg
            \<and> (special_literal body \<or> decimal_literal body))"
    using u f sg b by blast
  ultimately show "\<exists>v. py_float text = Inr v"
    unfolding py_float_accepts_strip stripped_accepts by simp
qed

lemma py_float_rejects: "(py_float text = Inl ValueError) = (\<not> float_literal text)"
proof -
  have "(\<exists>v. py_float text = Inr v) = (py_float text \<noteq> Inl ValueError)"
    using py_float_error [of "text"] by (cases "py_float text") auto
  then show ?thesis using py_float_accepts [of "text"] by simp
qed

section \<open>The events of a run\<close>



section \<open>The plan\<close>

text \<open>
  C1. In the command built for any source, destination and codec names, the two
  arguments after \<open>-c:v copy\<close> are the audio action: \<open>-c:a alac\<close> when the audio codec
  is \<open>dts\<close> up to the case of its letters, \<open>-c:a copy\<close> for every other name, the empty
  one included.
\<close>

theorem audio_action_dts:
  "take 2 (drop 6 (build_ffmpeg_cmd src dst acodec vcodec)) =
     (if eq_ignore_case acodec ''dts'' then [''-c:a'', ''alac''] else [''-c:a'', ''copy''])"
  by (simp add: build_ffmpeg_cmd_def audio_args_iff)

theorem audio_action_dts_witness:
  "eq_ignore_case ''DtS'' ''dts'' \<and> \<not> eq_ignore_case [] ''dts''
   \<and> \<not> eq_ignore_case ''aac'' ''dts''
   \<and> take 2 (drop 6 (build_ffmpeg_cmd ''a.mkv'' ''a.mp4'' ''DtS'' ''h264'')) = [''-c:a'', ''alac'']
   \<and> take 2 (drop 6 (build_ffmpeg_cmd ''a.mkv'' ''a.mp4'' [] ''h264'')) = [''-c:a'', ''copy'']
   \<and> take 2 (drop 6 (build_ffmpeg_cmd ''a.mkv'' ''a.mp4'' ''aac'' ''h264'')) = [''-c:a'', ''copy'']"
  using audio_action_dts [of "''a.mkv''" "''a.mp4''" "''DtS''" "''h264''"]
    audio_action_dts [of "''a.mkv''" "''a.mp4''" "[]" "''h264''"]
    audio_action_dts [of "''a.mkv''" "''a.mp4''" "''aac''" "''h264''"]
  by (simp add: char_eval)

text \<open>
  C6. After its first ten arguments the command goes on with \<open>-tag:v hvc1\<close> when the
  video codec is \<open>hevc\<close> or \<open>h265\<close> up to the case of its letters, and with nothing for
  every other name; the progress arguments and the destination follow.
\<close>

theorem tag_override_hevc:
  "drop 10 (build_ffmpeg_cmd src dst acodec vcodec) =
     (if eq_ignore_case vcodec ''hevc'' \<or> eq_ignore_case vcodec ''h265''
      then [''-tag:v'', ''hvc1''] else [])
     @ [''-progress'', ''pipe:1'', ''-nostats'', dst]"
  by (simp add: build_ffmpeg_cmd_def tag_args_iff length_audio_args)

theorem tag_override_hevc_witness:
  "eq_ignore_case ''HeVc'' ''hevc'' \<and> eq_ignore_case ''H265'' ''h265''
   \<and> \<not> eq_ignore_case ''h264'' ''hevc'' \<and> \<not> eq_ignore_case ''h264'' ''h265''
   \<and> drop 10 (build_ffmpeg_cmd ''a.mkv'' ''a.mp4'' ''aac'' ''HeVc'')
       = [''-tag:v'', ''hvc1'', ''-progress'', ''pipe:1'', ''-nostats'', ''a.mp4'']
   \<and> drop 10 (build_ffmpeg_cmd ''a.mkv'' ''a.mp4'' ''aac'' ''H265'')
       = [''-tag:v'', ''hvc1'', ''-progress'', ''pipe:1'', ''-nostats'', ''a.mp4'']
   \<and> drop 10 (build_ffmpeg_cmd ''a.mkv'' ''a.mp4'' ''aac'' ''h264'')
       = [''-progress'', ''pipe:1'', ''-nostats'', ''a.mp4'']"
  using tag_override_hevc [of "''a.mkv''" "''a.mp4''" "''aac''" "''HeVc''"]
    tag_override_hevc [of "''a.mkv''" "''a.mp4''" "''aac''" "''H265''"]
    tag_override_hevc [of "''a.mkv''" "''a.mp4''" "''aac''" "''h264''"]
  by (simp add: char_eval)




section \<open>The probe\<close>

text \<open>
  C8, as the code has it. When the text that the duration query answers with, once
  stripped, is not a float literal (the empty text is none), the run ends with the
  \<open>ValueError\<close> of \<open>get_duration\<close> and nothing has happened before: nothing is printed,
  no command is built and ffmpeg is not started. Every float literal is read, \<open>nan\<close>,
  \<open>inf\<close> and \<open>infinity\<close> among them.
\<close>

theorem probe_failure_first:
  assumes "ffprobe w [''ffprobe'', ''-v'', ''error'', ''-show_entries'', ''format=duration'',
                      ''-of'', ''default=noprint_wrappers=1:nokey=1'', src] = Inr out"
  shows "(\<not> float_literal (strip out) \<longrightarrow> remux_with_progress w src = ([], Raised ValueError))
         \<and> (float_literal (strip out) \<longrightarrow> (\<exists>v. get_duration w src = Inr v))"
proof (intro conjI impI)
  assume "\<not> float_literal (strip out)"
  then have "py_float (strip out) = Inl ValueError" by (simp add: py_float_rejects)
  with assms have "get_duration w src = Inl ValueError"
    by (simp add: get_duration_def)
  then show "remux_with_progress w src = ([], Raised ValueError)"
    by (simp add: remux_with_progress_def)
next
  assume "float_literal (strip out)"
  then have "\<exists>v. py_float (strip out) = Inr v" by (simp add: py_float_accepts)
  with assms show "\<exists>v. get_duration w src = Inr v"
    by (simp add: get_duration_def)
qed

theorem probe_failure_first_witness:
  "\<not> float_literal (strip [])
   \<and> remux_with_progress (sample_world [] ''aac'' ''h264'' [''out_time_ms=5000000''] 0) ''a.mkv''
       = ([], Raised ValueError)
   \<and> \<not> float_literal (strip (''N/A'' @ [CHR 0x0A]))
   \<and> remux_with_progress
        (sample_world (''N/A'' @ [CHR 0x0A]) ''aac'' ''h264'' [''out_time_ms=5000000''] 0) ''a.mkv''
       = ([], Raised ValueError)
   \<and> float_literal (strip (''10.000000'' @ [CHR 0x0A]))
   \<and> get_duration (sample_world (''10.000000'' @ [CHR 0x0A]) ''aac'' ''h264'' [] 0) ''a.mkv''
       = Inr (Fin 10)"
proof -
  have e: "\<not> float_literal (strip [])"
    unfolding py_float_rejects [symmetric] by (simp add: strip_def float_eval char_eval)
  have n: "\<not> float_literal (strip (''N/A'' @ [CHR 0x0A]))"
    unfolding py_float_rejects [symmetric] by (simp add: strip_def float_eval char_eval)
  have t: "py_float (strip (''10.000000'' @ [CHR 0x0A])) = Inr (Fin 10)"
    by (simp add: strip_def float_eval char_eval)
  then have l: "float_literal (strip (''10.000000'' @ [CHR 0x0A]))"
    unfolding py_float_accepts [symmetric] by blast
  have g: "get_duration (sample_world (''10.000000'' @ [CHR 0x0A]) ''aac'' ''h264'' [] 0) ''a.mkv''
       = Inr (Fin 10)"
    using t by (simp add: get_duration_def sample_world_def)
  have 1: "ffprobe (sample_world out ''aac'' ''h264'' ls 0)
             [''ffprobe'', ''-v'', ''error'', ''-show_entries'', ''format=duration'',
              ''-of'', ''default=noprint_wrappers=1:nokey=1'', ''a.mkv''] = Inr out" for out ls
    by (simp add: sample_world_def)
  show ?thesis
    using e n l g probe_failure_first [OF 1, of "[]" "[''out_time_ms=5000000'']"]
      probe_failure_first [OF 1, of "''N/A'' @ [CHR 0x0A]" "[''out_time_ms=5000000'']"]
    by simp
qed

text \<open>The claim C8 as it is written fails on the texts \<open>nan\<close> and \<open>inf\<close>: they are
  no numbers, \<open>float\<close> reads them all the same, and the run builds the command and
  starts ffmpeg.\<close>

theorem special_duration_counterexample:
  "remux_with_progress (sample_world (''nan'' @ [CHR 0x0A]) ''aac'' ''h264'' [] 0) ''a.mkv''
   = ([PrintCodecs ''aac'' ''h264'',
       BuildCmd [''ffmpeg'', ''-y'', ''-i'', ''a.mkv'', ''-c:v'', ''copy'', ''-c:a'', ''copy'',
                 ''-movflags'', ''+faststart'', ''-progress'', ''pipe:1'', ''-nostats'', ''a.mp4''],
       Popen [''ffmpeg'', ''-y'', ''-i'', ''a.mkv'', ''-c:v'', ''copy'', ''-c:a'', ''copy'',
              ''-movflags'', ''+faststart'', ''-progress'', ''pipe:1'', ''-nostats'', ''a.mp4''],
       PrintStatus True ''a.mp4''],
      SysExit 0)
   \<and> remux_with_progress
        (sample_world (''inf'' @ [CHR 0x0A]) ''aac'' ''h264'' [''out_time_ms=5000000''] 0) ''a.mkv''
   = ([PrintCodecs ''aac'' ''h264'',
       BuildCmd [''ffmpeg'', ''-y'', ''-i'', ''a.mkv'', ''-c:v'', ''copy'', ''-c:a'', ''copy'',
                 ''-movflags'', ''+faststart'', ''-progress'', ''pipe:1'', ''-nostats'', ''a.mp4''],
       Popen [''ffmpeg'', ''-y'', ''-i'', ''a.mkv'', ''-c:v'', ''copy'', ''-c:a'', ''copy'',
              ''-movflags'', ''+faststart'', ''-progress'', ''pipe:1'', ''-nostats'', ''a.mp4''],
       PrintProgress (Fin 0),
       PrintStatus True ''a.mp4''],
      SysExit 0)"
  by (simp add: prog_eval run_eval line_eval float_eval char_eval)

section \<open>The progress parser\<close>

text \<open>
  C7. With a total duration of 10 seconds the line \<open>out_time_ms=5000000\<close> gives the
  percentage 50, and the line \<open>out_time=00:00:05.000000\<close> gives the same 50; so do the
  two lines with the newline they end with when read from the pipe.
\<close>

theorem progress_line_encodings:
  "line_percent (Fin 10) ''out_time_ms=5000000'' = Inr (Some (Fin 50))
   \<and> line_percent (Fin 10) ''out_time=00:00:05.000000'' = Inr (Some (Fin 50))
   \<and> line_percent (Fin 10) (''out_time_ms=5000000'' @ [CHR 0x0A]) = Inr (Some (Fin 50))
   \<and> line_percent (Fin 10) (''out_time=00:00:05.000000'' @ [CHR 0x0A]) = Inr (Some (Fin 50))"
  by (simp add: line_eval float_eval char_eval)

text \<open>
  C2. For a total duration \<open>d > 0\<close> and a line that stands for \<open>e\<close> elapsed seconds: when
  \<open>0 \<le> e \<le> d\<close> the percentage is the float \<open>e / d * 100\<close>, as line 181 computes it,
  clamped to the range from 0 to 100, and when \<open>e > d\<close> it is 100.
\<close>

theorem percent_clamped:
  assumes "done_seconds line = Inr (Some (Fin e))" and "0 < d"
  shows "(0 \<le> e \<and> e \<le> d \<longrightarrow>
            (\<exists>q p. fdiv (Fin e) (Fin d) = Inr q \<and> fmul q (Fin 100) = Fin p
                   \<and> 0 \<le> p \<and> p \<le> 100
                   \<and> line_percent (Fin d) line = Inr (Some (Fin (clamp p 0 100)))))
         \<and> (d < e \<longrightarrow> line_percent (Fin d) line = Inr (Some (Fin 100)))"
proof (intro conjI impI)
  assume a: "0 \<le> e \<and> e \<le> d"
  then have "0 \<le> e / d" "e / d \<le> 1" using assms(2) by simp_all
  then have "fle (Fin 0) (round64 (e / d))" "fle (round64 (e / d)) (Fin 1)"
    using round64_mono [of "e / d" 1] by (simp_all add: round64_nonneg round64_one)
  then obtain q where q: "round64 (e / d) = Fin q" "0 \<le> q" "q \<le> 1"
    by (cases "round64 (e / d)") simp_all
  then have "0 \<le> q * 100" "q * 100 \<le> 100" by simp_all
  then have "fle (Fin 0) (round64 (q * 100))" "fle (round64 (q * 100)) (Fin 100)"
    using round64_mono [of "q * 100" 100] by (simp_all add: round64_nonneg round64_hundred)
  then obtain p where p: "round64 (q * 100) = Fin p" "0 \<le> p" "p \<le> 100"
    by (cases "round64 (q * 100)") simp_all
  have "fdiv (Fin e) (Fin d) = Inr (Fin q)" using assms(2) q by simp
  moreover have "fmul (Fin q) (Fin 100) = Fin p" using p by simp
  moreover have "line_percent (Fin d) line = Inr (Some (Fin (clamp p 0 100)))"
    using assms q p by (simp add: line_percent_def percent_def py_min_def clamp_inside)
  ultimately show "\<exists>q p. fdiv (Fin e) (Fin d) = Inr q \<and> fmul q (Fin 100) = Fin p
                   \<and> 0 \<le> p \<and> p \<le> 100
                   \<and> line_percent (Fin d) line = Inr (Some (Fin (clamp p 0 100)))"
    using p(2,3) by blast
next
  assume a: "d < e"
  then have "1 \<le> e / d" using assms(2) by simp
  then have q1: "fle (Fin 1) (round64 (e / d))"
    using round64_mono [of 1 "e / d"] by (simp add: round64_one)
  have "fle (Fin 100) (fmul (round64 (e / d)) (Fin 100))"
    using fmul_mono [OF _ q1, of 100] by (simp add: round64_hundred)
  then have "py_min (fmul (round64 (e / d)) (Fin 100)) (Fin 100) = Fin 100"
    by (cases "fmul (round64 (e / d)) (Fin 100)") (simp_all add: py_min_def)
  then show "line_percent (Fin d) line = Inr (Some (Fin 100))"
    using assms a by (simp add: line_percent_def percent_def)
qed

theorem percent_clamped_witness:
  "done_seconds ''out_time_ms=290000'' = Inr (Some (Fin (5224175567749775 / 18014398509481984)))
   \<and> line_percent (Fin 1) ''out_time_ms=290000'' = Inr (Some (Fin (29 - 1 / 2 ^ 48)))
   \<and> line_percent (Fin (1 / 4)) ''out_time_ms=290000'' = Inr (Some (Fin 100))"
proof -
  have d: "done_seconds ''out_time_ms=290000''
             = Inr (Some (Fin (5224175567749775 / 18014398509481984)))"
    by (simp add: line_eval float_eval char_eval)
  have p: "line_percent (Fin 1) ''out_time_ms=290000'' = Inr (Some (Fin (29 - 1 / 2 ^ 48)))"
    by (simp add: line_eval float_eval char_eval)
  show ?thesis
    using d p percent_clamped [OF d, of 1] percent_clamped [OF d, of "1 / 4"] by simp
qed

text \<open>
  C3, as the code has it. Nothing checks the duration before line 181 and there is no
  mode of indeterminate progress: a progress line makes the loop raise
  \<open>ZeroDivisionError\<close> exactly when the total duration is zero, and for every other
  duration, a negative one included, the quotient is computed.
\<close>

theorem zero_duration_divides:
  "(step total_duration line st = Inl ZeroDivisionError) =
     (total_duration = Fin 0 \<and> (\<exists>d. done_seconds line = Inr (Some d)))"
proof (cases "done_seconds line")
  case (Inl e)
  then show ?thesis
    using done_seconds_error [OF Inl] by (auto simp: step_def line_percent_def)
next
  case (Inr r)
  show ?thesis
  proof (cases r)
    case None
    then show ?thesis using Inr by (simp add: step_def line_percent_def)
  next
    case (Some d)
    show ?thesis
    proof (cases "percent d total_duration")
      case (Inl e)
      then have "total_duration = Fin 0" and "e = ZeroDivisionError"
        by (simp_all add: percent_error)
      with Inl Inr Some show ?thesis
        by (simp add: step_def line_percent_def)
    next
      case pct: (Inr pct)
      then have "total_duration \<noteq> Fin 0"
        using percent_error [of d total_duration ZeroDivisionError] by auto
      then show ?thesis using Inr Some pct
        by (auto simp: step_def line_percent_def split: sum.splits dest: py_int_error)
    qed
  qed
qed

theorem zero_duration_divides_witness:
  "step (Fin 0) ''out_time_ms=5000000'' initial_state = Inl ZeroDivisionError
   \<and> done_seconds ''out_time_ms=5000000'' = Inr (Some (Fin 5))
   \<and> step (Fin (- 10)) ''out_time_ms=5000000'' initial_state
       = Inr \<lparr>last_pct = - 50, updates = [(Fin (- 50), - 50)]\<rparr>"
  using zero_duration_divides [of "Fin 0" "''out_time_ms=5000000''" initial_state]
  by (simp add: run_eval line_eval float_eval char_eval)

text \<open>The claim C3 as it is written fails: ffprobe reports a duration of 0, ffmpeg
  writes one progress line, and the run ends with \<open>ZeroDivisionError\<close>.\<close>

theorem zero_duration_counterexample:
  "remux_with_progress (sample_world ''0.000000'' ''aac'' ''h264'' [''out_time_ms=5000000''] 0)
     ''a.mkv''
   = ([PrintCodecs ''aac'' ''h264'',
       BuildCmd [''ffmpeg'', ''-y'', ''-i'', ''a.mkv'', ''-c:v'', ''copy'', ''-c:a'', ''copy'',
                 ''-movflags'', ''+faststart'', ''-progress'', ''pipe:1'', ''-nostats'', ''a.mp4''],
       Popen [''ffmpeg'', ''-y'', ''-i'', ''a.mkv'', ''-c:v'', ''copy'', ''-c:a'', ''copy'',
              ''-movflags'', ''+faststart'', ''-progress'', ''pipe:1'', ''-nostats'', ''a.mp4'']],
      Raised ZeroDivisionError)"
  by (simp add: prog_eval run_eval line_eval float_eval char_eval)

text \<open>
  C4, as the code has it. A line in which neither pattern is found is passed over: no
  error, and the state is the one before.
\<close>

theorem unrelated_line_ignored:
  "re_us line = None \<Longrightarrow> re_hms line = None \<Longrightarrow> step total_duration line st = Inr st"
  by (simp add: step_def line_percent_def done_seconds_def)

theorem unrelated_line_ignored_witness:
  "re_us ''frame=100'' = None \<and> re_hms ''frame=100'' = None
   \<and> step (Fin 10) ''frame=100'' initial_state = Inr initial_state"
  using unrelated_line_ignored [of "''frame=100''" "Fin 10" initial_state]
  by (simp add: line_eval char_eval)

text \<open>The claim C4 as it is written fails on a malformed variant of the second form:
  \<open>out_time=00:05\<close> has two fields, the second pattern finds it, and unpacking into
  three names raises \<open>ValueError\<close>.\<close>

theorem malformed_line_counterexample:
  "re_us ''out_time=00:05'' = None \<and> re_hms ''out_time=00:05'' = Some ''00:05''
   \<and> step (Fin 10) ''out_time=00:05'' initial_state = Inl ValueError"
  by (simp add: run_eval line_eval float_eval char_eval)

section \<open>The throttle\<close>

text \<open>
  C5, as the code has it. In a run, whatever the duration and the lines, the same
  truncated percentage is never printed twice in a row. The printed values are
  non-decreasing when the duration is positive and the elapsed seconds that the loop
  computes from the progress lines are themselves non-decreasing.
\<close>

theorem throttled_progress:
  "distinct_adj (emitted (fst (run_lines total_duration lines initial_state)))
   \<and> (0 < d \<and> sorted_wrt fle (elapsed_times lines)
        \<longrightarrow> sorted (emitted (fst (run_lines (Fin d) lines initial_state))))"
proof
  show "distinct_adj (emitted (fst (run_lines total_duration lines initial_state)))"
    using run_lines_throttled [OF throttled_initial] by (simp add: throttled_def)
next
  show "0 < d \<and> sorted_wrt fle (elapsed_times lines)
        \<longrightarrow> sorted (emitted (fst (run_lines (Fin d) lines initial_state)))"
  proof
    assume a: "0 < d \<and> sorted_wrt fle (elapsed_times lines)"
    have "\<forall>v\<in>set (elapsed_times lines). last_pct initial_state \<le> whole_percent (Fin d) v"
    proof
      fix v assume "v \<in> set (elapsed_times lines)"
      then have "fle (Fin 0) v" by (rule elapsed_times_nonneg)
      with a have "0 \<le> whole_percent (Fin d) v" by (simp add: whole_percent_nonneg)
      then show "last_pct initial_state \<le> whole_percent (Fin d) v"
        by (simp add: initial_state_def)
    qed
    moreover have "sorted (emitted initial_state)"
      "\<forall>k\<in>set (emitted initial_state). k \<le> last_pct initial_state"
      by (simp_all add: initial_state_def emitted_def)
    ultimately show "sorted (emitted (fst (run_lines (Fin d) lines initial_state)))"
      using run_lines_sorted [of d lines initial_state] a by blast
  qed
qed

theorem throttled_progress_witness:
  "sorted_wrt fle (elapsed_times [''out_time_ms=3000000'', ''frame=1'', ''out_time_ms=3050000'',
      ''out_time=00:00:05.000000''])
   \<and> emitted (fst (run_lines (Fin 10) [''out_time_ms=3000000'', ''frame=1'',
        ''out_time_ms=3050000'', ''out_time=00:00:05.000000''] initial_state)) = [30, 50]
   \<and> sorted (emitted (fst (run_lines (Fin 10) [''out_time_ms=3000000'', ''frame=1'',
        ''out_time_ms=3050000'', ''out_time=00:00:05.000000''] initial_state)))
   \<and> distinct_adj (emitted (fst (run_lines (Fin 10) [''out_time_ms=3000000'', ''frame=1'',
        ''out_time_ms=3050000'', ''out_time=00:00:05.000000''] initial_state)))"
  using throttled_progress [of "Fin 10" "[''out_time_ms=3000000'', ''frame=1'',
        ''out_time_ms=3050000'', ''out_time=00:00:05.000000'']" 10]
  by (simp add: run_eval line_eval float_eval char_eval)

text \<open>The claim C5 as it is written fails: the loop prints on every change of the
  truncated value, so elapsed times that go down are printed going down.\<close>

theorem monotone_progress_counterexample:
  "emitted (fst (run_lines (Fin 10) [''out_time_ms=5000000'', ''out_time_ms=3000000'']
      initial_state)) = [50, 30]
   \<and> \<not> sorted (emitted (fst (run_lines (Fin 10) [''out_time_ms=5000000'', ''out_time_ms=3000000'']
      initial_state)))"
  by (simp add: run_eval line_eval float_eval char_eval)

section \<open>The exit code\<close>

text \<open>
  C9. The run ends with \<open>sys.exit(c)\<close> exactly when the three probes answer, ffmpeg
  starts, the loop reads its lines to the end without an exception, and \<open>c\<close> is the
  return code of ffmpeg: the code passed on is that of the child, whatever it is. A
  return code of 1 ends the run with \<open>sys.exit(1)\<close>, not with an exception.
\<close>

theorem exit_code_forwarded:
  "(snd (remux_with_progress w src) = SysExit c) =
     (\<exists>total_duration acodec vcodec lines.
        get_duration w src = Inr total_duration
        \<and> detect_audio_codec w src = Inr acodec
        \<and> detect_video_codec w src = Inr vcodec
        \<and> ffmpeg w (build_ffmpeg_cmd src (splitext_root src @ ''.mp4'') acodec vcodec)
            = Inr (lines, c)
        \<and> snd (run_lines total_duration lines initial_state) = None)"
  by (auto simp: remux_with_progress_def Let_def split: sum.splits prod.splits option.splits)

theorem exit_code_forwarded_witness:
  "remux_with_progress (sample_world ''10.000000'' ''aac'' ''h264'' [''out_time_ms=5000000''] 1)
     ''a.mkv''
   = ([PrintCodecs ''aac'' ''h264'',
       BuildCmd [''ffmpeg'', ''-y'', ''-i'', ''a.mkv'', ''-c:v'', ''copy'', ''-c:a'', ''copy'',
                 ''-movflags'', ''+faststart'', ''-progress'', ''pipe:1'', ''-nostats'', ''a.mp4''],
       Popen [''ffmpeg'', ''-y'', ''-i'', ''a.mkv'', ''-c:v'', ''copy'', ''-c:a'', ''copy'',
              ''-movflags'', ''+faststart'', ''-progress'', ''pipe:1'', ''-nostats'', ''a.mp4''],
       PrintProgress (Fin 50),
       PrintStatus False ''a.mp4''],
      SysExit 1)"
  using exit_code_forwarded
    [of "sample_world ''10.000000'' ''aac'' ''h264'' [''out_time_ms=5000000''] 1" "''a.mkv''" 1]
  by (simp add: prog_eval run_eval line_eval float_eval char_eval)

end
